theory Spec2Isabelle
  imports Main
begin

section \<open>The write allowlist of the Drive server (src/writeAccess.ts)\<close>

text \<open>
  The module keeps three pieces of process-wide state: the parsed allowlist, a cache of
  the nodes it has fetched from the remote store, and a flag saying that the alias
  \<open>root\<close> has been resolved. Every function below is the source function of the same
  name, with that state passed in and returned. A \<open>UserError\<close> thrown by the source is
  the left summand of the result; the state that is returned with it is the state the
  module is left in when the exception escapes.

  Strings are \<open>string\<close>: a character stands for one code unit below 256. Identifiers
  of the remote store are ASCII.
\<close>

subsection \<open>Strings as JavaScript treats them\<close>

definition truthy :: "string \<Rightarrow> bool" where
  "truthy s = (s \<noteq> [])"

text \<open>\<open>a || b\<close> on a string that may be undefined.\<close>

definition or_else :: "string option \<Rightarrow> string \<Rightarrow> string" where
  "or_else a b = (case a of None \<Rightarrow> b | Some s \<Rightarrow> if truthy s then s else b)"

text \<open>
  The characters \<open>String.prototype.trim\<close> strips, among the code units below 256:
  tab, line feed, vertical tab, form feed, carriage return, space and no-break space.
\<close>

definition is_space :: "char \<Rightarrow> bool" where
  "is_space c = (c = CHR 0x09 \<or> c = CHR 0x0A \<or> c = CHR 0x0B \<or> c = CHR 0x0C
                 \<or> c = CHR 0x0D \<or> c = CHR 0x20 \<or> c = CHR 0xA0)"

definition trim :: "string \<Rightarrow> string" where
  "trim s = rev (dropWhile is_space (rev (dropWhile is_space s)))"

text \<open>\<open>s.split(re)\<close> for a regular expression that matches exactly one character.\<close>

fun split_on :: "(char \<Rightarrow> bool) \<Rightarrow> string \<Rightarrow> string list" where
  "split_on P [] = [[]]"
| "split_on P (c # cs) =
     (if P c then [] # split_on P cs
      else (case split_on P cs of
              [] \<Rightarrow> [[c]]
            | w # ws \<Rightarrow> (c # w) # ws))"

fun join :: "string \<Rightarrow> string list \<Rightarrow> string" where
  "join sep [] = []"
| "join sep [x] = x"
| "join sep (x # y # ys) = x @ sep @ join sep (y # ys)"

definition startsWith :: "string \<Rightarrow> char \<Rightarrow> bool" where
  "startsWith s c = (case s of [] \<Rightarrow> False | x # _ \<Rightarrow> x = c)"

subsection \<open>Data\<close>

record AllowlistState =
  enabled :: bool
  ids :: "string set"
  sources :: "string list"
  error :: "string option"

record FileNode =
  id_n :: string
  parents :: "string list"

datatype UserError = UserError string

text \<open>
  What \<open>drive.files.get\<close> answers: the fields \<open>id\<close> and \<open>parents\<close> of
  \<open>response.data\<close>, either of which may be missing.
\<close>

record response =
  data_id :: "string option"
  data_parents :: "string list option"

text \<open>
  What \<open>drive.files.get\<close> throws: \<open>error.code\<close> (\<open>None\<close> when it is absent or
  not a number, so that \<open>===\<close> against 404 and 403 fails),
  \<open>error.response?.data?.error?.message\<close> and \<open>error.message\<close>.
\<close>

record remote_error =
  code :: "int option"
  response_message :: "string option"
  message :: "string option"

text \<open>The remote store: one answer for each identifier, the same each time it is asked.\<close>

type_synonym drive = "string \<Rightarrow> remote_error + response"

text \<open>
  The module's variables, and two histories that are not in the source: \<open>lookups\<close>
  records, in order, the \<open>fileId\<close> of every call of \<open>drive.files.get\<close> the module has
  made, and \<open>visited\<close> every identifier a search has put into its \<open>seen\<close> set.
\<close>

record gate =
  allowlistState :: AllowlistState
  parentCache :: "string \<rightharpoonup> FileNode"
  rootResolved :: bool
  lookups :: "string list"
  visited :: "string list"

datatype targetLabel = File_label | Parent_label | Parents_label

fun label_text :: "targetLabel \<Rightarrow> string" where
  "label_text File_label = ''file''"
| "label_text Parent_label = ''parent''"
| "label_text Parents_label = ''parents''"

definition ENV_ALLOWLIST :: string where
  "ENV_ALLOWLIST = ''GOOGLE_DRIVE_WRITE_ALLOWLIST''"

definition ENV_ALLOWLIST_PATH :: string where
  "ENV_ALLOWLIST_PATH = ''GOOGLE_DRIVE_WRITE_ALLOWLIST_PATH''"

subsection \<open>Reading the configuration\<close>

text \<open>
  A value thrown by \<open>JSON.parse\<close> or \<open>fs.readFileSync\<close>: its \<open>message\<close> and what
  \<open>String\<close> makes of it.
\<close>

record thrown =
  thrown_message :: "string option"
  thrown_String :: string

text \<open>
  A parsed JSON value. A number and a boolean carry the text \<open>String\<close> gives for
  them; an object is the list of its own properties. \<open>String\<close> of an array joins its
  elements with commas, a null element giving the empty text.
\<close>

datatype json =
    JNull
  | JAtom string
  | JString string
  | JArray "json list"
  | JObject "(string \<times> json) list"

fun String_of :: "json \<Rightarrow> string" where
  "String_of JNull = ''null''"
| "String_of (JAtom s) = s"
| "String_of (JString s) = s"
| "String_of (JArray xs) =
     join '','' (map (\<lambda>x. if x = JNull then [] else String_of x) xs)"
| "String_of (JObject kvs) = ''[object Object]''"

definition splitList :: "string \<Rightarrow> string list" where
  "splitList rawValue =
     filter (\<lambda>v. length v > 0)
       (map trim (split_on (\<lambda>c. c = CHR 0x0A \<or> c = CHR '','') rawValue))"

fun extractIds_loop :: "(string \<times> json) list \<Rightarrow> string list \<Rightarrow> string list" where
  "extractIds_loop parsed [] = []"
| "extractIds_loop parsed (fld # rest) =
     (case map_of parsed fld of
        Some (JArray v) \<Rightarrow> map String_of v
      | Some (JString v) \<Rightarrow> [v]
      | _ \<Rightarrow> []) @ extractIds_loop parsed rest"

definition extractIds :: "(string \<times> json) list \<Rightarrow> string list" where
  "extractIds parsed = extractIds_loop parsed [''ids'', ''files'', ''folders'']"

text \<open>\<open>JSON.parse\<close> is a parameter: it answers a value or throws.\<close>

definition parseAllowlistInput ::
  "(string \<Rightarrow> thrown + json) \<Rightarrow> string \<Rightarrow> thrown + string list" where
  "parseAllowlistInput JSON_parse rawValue =
     (let trimmed = trim rawValue in
      if \<not> truthy trimmed then Inr []
      else if startsWith trimmed CHR ''{'' \<or> startsWith trimmed CHR ''['' then
        (case JSON_parse trimmed of
           Inl e \<Rightarrow> Inl e
         | Inr (JArray xs) \<Rightarrow> Inr (map String_of xs)
         | Inr (JObject kvs) \<Rightarrow> Inr (extractIds kvs)
         | Inr (JString s) \<Rightarrow> Inr [s]
         | Inr _ \<Rightarrow>
             Inl \<lparr>thrown_message =
                    Some ''Allowlist JSON must be an array or object with ids/files/folders.'',
                  thrown_String =
                    ''Error: Allowlist JSON must be an array or object with ids/files/folders.''\<rparr>)
      else Inr (splitList trimmed))"

text \<open>
  \<open>loadAllowlistState\<close> reads the two environment variables; here they are its last
  two arguments, and \<open>fs.readFileSync\<close> is a parameter like \<open>JSON.parse\<close>.
\<close>

definition loadAllowlistState ::
  "(string \<Rightarrow> thrown + string) \<Rightarrow> (string \<Rightarrow> thrown + json)
     \<Rightarrow> string option \<Rightarrow> string option \<Rightarrow> AllowlistState" where
  "loadAllowlistState readFileSync JSON_parse allowlistValue allowlistPath =
     (let (sources1, errors1, enabled1, ids1) =
            (case allowlistValue of
               None \<Rightarrow> ([], [], False, [])
             | Some v \<Rightarrow>
                 (case parseAllowlistInput JSON_parse v of
                    Inr xs \<Rightarrow> ([''env:'' @ ENV_ALLOWLIST], [], True, xs)
                  | Inl e \<Rightarrow>
                      ([''env:'' @ ENV_ALLOWLIST],
                       [or_else (thrown_message e) (thrown_String e)], True, [])));
          (sources2, errors2, enabled2, ids2) =
            (case allowlistPath of
               None \<Rightarrow> (sources1, errors1, enabled1, ids1)
             | Some p \<Rightarrow>
                 (case (case readFileSync p of
                          Inl e \<Rightarrow> Inl e
                        | Inr fileContents \<Rightarrow> parseAllowlistInput JSON_parse fileContents) of
                    Inr xs \<Rightarrow> (sources1 @ [''file:'' @ p], errors1, True, ids1 @ xs)
                  | Inl e \<Rightarrow>
                      (sources1 @ [''file:'' @ p],
                       errors1 @ [''Failed to read '' @ p @ '': ''
                                   @ or_else (thrown_message e) (thrown_String e)],
                       True, ids1)))
      in \<lparr>enabled = enabled2,
          ids = set (filter (\<lambda>i. length i > 0) (map trim ids2)),
          sources = sources2,
          error = (if length errors2 > 0 then Some (join '' '' errors2) else None)\<rparr>)"

text \<open>
  The identifiers of a plain-text list as the specification words them: split on newlines
  and commas, trim each piece, drop the empty ones.
\<close>

definition plain_text_ids :: "string \<Rightarrow> string set" where
  "plain_text_ids text =
     set (filter (\<lambda>piece. piece \<noteq> [])
            (map trim (split_on (\<lambda>c. c = CHR 0x0A \<or> c = CHR '','') text)))"

definition plain_text :: "string \<Rightarrow> bool" where
  "plain_text text = (\<not> startsWith (trim text) CHR ''{'' \<and> \<not> startsWith (trim text) CHR ''['')"

definition formatSources :: "AllowlistState \<Rightarrow> string" where
  "formatSources state =
     (if length (sources state) = 0 then ''unknown source'' else join '', '' (sources state))"

subsection \<open>Fetching a node\<close>

text \<open>The node built from an answer of the store, and the \<open>catch\<close> block.\<close>

definition FileNode_of :: "string \<Rightarrow> response \<Rightarrow> FileNode" where
  "FileNode_of fileId response =
     \<lparr>id_n = or_else (data_id response) fileId,
      parents = (case data_parents response of None \<Rightarrow> [] | Some ps \<Rightarrow> ps)\<rparr>"

definition getFileNode_catch :: "remote_error \<Rightarrow> string \<Rightarrow> UserError" where
  "getFileNode_catch err fileId =
     (let msg = or_else (response_message err) (or_else (message err) ''Unknown error'')
      in if code err = Some 404 then
           UserError (''Cannot verify allowlist: file not found (ID: '' @ fileId @ '').'')
         else if code err = Some 403 then
           UserError (''Cannot verify allowlist: permission denied for file (ID: ''
                       @ fileId @ '').'')
         else UserError (''Cannot verify allowlist for file '' @ fileId @ '': '' @ msg))"

definition getFileNode :: "drive \<Rightarrow> string \<Rightarrow> gate \<Rightarrow> (UserError + FileNode) \<times> gate" where
  "getFileNode drive fileId s =
     (case parentCache s fileId of
        Some cached \<Rightarrow> (Inr cached, s)
      | None \<Rightarrow>
          (let s0 = s\<lparr>lookups := lookups s @ [fileId]\<rparr> in
           case drive fileId of
             Inr response \<Rightarrow>
               (let node = FileNode_of fileId response;
                    s1 = s0\<lparr>parentCache := (parentCache s0)(fileId \<mapsto> node)\<rparr>;
                    s2 = (if truthy (id_n node) \<and> id_n node \<noteq> fileId
                          then s1\<lparr>parentCache := (parentCache s1)(id_n node \<mapsto> node)\<rparr>
                          else s1)
                in (Inr node, s2))
           | Inl err \<Rightarrow> (Inl (getFileNode_catch err fileId), s0)))"

subsection \<open>Resolving the alias of the root\<close>

text \<open>
  The source hands \<open>allowlistState.ids\<close> itself to \<open>ensureRootResolved\<close>, so
  \<open>allowlistIds.add\<close> changes the module's set.
\<close>

definition ensureRootResolved :: "drive \<Rightarrow> gate \<Rightarrow> (UserError + unit) \<times> gate" where
  "ensureRootResolved drive s =
     (if rootResolved s \<or> ''root'' \<notin> ids (allowlistState s) then (Inr (), s)
      else (case getFileNode drive ''root'' s of
              (Inl e, s1) \<Rightarrow> (Inl e, s1)
            | (Inr rootNode, s1) \<Rightarrow>
                (let s2 = (if truthy (id_n rootNode) \<and> id_n rootNode \<noteq> ''root''
                           then s1\<lparr>allowlistState :=
                                     (allowlistState s1)\<lparr>ids :=
                                        insert (id_n rootNode) (ids (allowlistState s1))\<rparr>\<rparr>
                           else s1)
                 in (Inr (), s2\<lparr>rootResolved := True\<rparr>))))"

subsection \<open>The search through the ancestors\<close>

text \<open>
  The \<open>while\<close> loop of \<open>isIdWithinAllowlist\<close>. It ends when the queue is empty, which
  nothing in the loop itself guarantees: a result \<open>None\<close> is a loop that never ends.
\<close>

partial_function (option) isIdWithinAllowlist_loop ::
  "drive \<Rightarrow> string set \<Rightarrow> string list \<Rightarrow> string set \<Rightarrow> gate
     \<Rightarrow> ((UserError + bool) \<times> gate) option" where
  "isIdWithinAllowlist_loop drive allowlistIds queue seen s =
     (case queue of
        [] \<Rightarrow> Some (Inr False, s)
      | currentId # rest \<Rightarrow>
          if \<not> truthy currentId \<or> currentId \<in> seen then
            isIdWithinAllowlist_loop drive allowlistIds rest seen s
          else if currentId \<in> allowlistIds then
            Some (Inr True, s\<lparr>visited := visited s @ [currentId]\<rparr>)
          else (case getFileNode drive currentId (s\<lparr>visited := visited s @ [currentId]\<rparr>) of
                  (Inl e, s1) \<Rightarrow> Some (Inl e, s1)
                | (Inr node, s1) \<Rightarrow>
                    if id_n node \<in> allowlistIds then Some (Inr True, s1)
                    else isIdWithinAllowlist_loop drive allowlistIds
                           (rest @ filter (\<lambda>parentId. parentId \<notin> insert currentId seen)
                                     (parents node))
                           (insert currentId seen) s1))"

declare isIdWithinAllowlist_loop.simps [code]

definition isIdWithinAllowlist ::
  "drive \<Rightarrow> string \<Rightarrow> string set \<Rightarrow> gate \<Rightarrow> ((UserError + bool) \<times> gate) option" where
  "isIdWithinAllowlist drive fileId allowlistIds s =
     isIdWithinAllowlist_loop drive allowlistIds [fileId] {} s"

subsection \<open>The assertions\<close>

fun assertWriteAccessInternal_loop ::
  "drive \<Rightarrow> string list \<Rightarrow> string \<Rightarrow> targetLabel \<Rightarrow> gate
     \<Rightarrow> ((UserError + unit) \<times> gate) option" where
  "assertWriteAccessInternal_loop drive [] actionDescription label s = Some (Inr (), s)"
| "assertWriteAccessInternal_loop drive (targetId # rest) actionDescription label s =
     (case isIdWithinAllowlist drive targetId (ids (allowlistState s)) s of
        None \<Rightarrow> None
      | Some (Inl e, s1) \<Rightarrow> Some (Inl e, s1)
      | Some (Inr allowed, s1) \<Rightarrow>
          if \<not> allowed then
            Some (Inl (UserError (''Write blocked by allowlist: '' @ actionDescription
                        @ ''. The target '' @ label_text label @ '' ('' @ targetId
                        @ '') is not within a whitelisted file or folder.'')), s1)
          else assertWriteAccessInternal_loop drive rest actionDescription label s1)"

definition assertWriteAccessInternal ::
  "drive \<Rightarrow> string list \<Rightarrow> string \<Rightarrow> targetLabel \<Rightarrow> gate
     \<Rightarrow> ((UserError + unit) \<times> gate) option" where
  "assertWriteAccessInternal drive targetIds actionDescription label s =
     (if \<not> enabled (allowlistState s) then Some (Inr (), s)
      else if (case error (allowlistState s) of None \<Rightarrow> False | Some e \<Rightarrow> truthy e) then
        Some (Inl (UserError (''Write allowlist configuration error (''
                    @ formatSources (allowlistState s) @ ''): ''
                    @ the (error (allowlistState s)) @ ''. Writes are blocked.'')), s)
      else if ids (allowlistState s) = {} then
        Some (Inl (UserError (''Write allowlist is enabled but empty (''
                    @ formatSources (allowlistState s) @ ''). Configure '' @ ENV_ALLOWLIST
                    @ '' or '' @ ENV_ALLOWLIST_PATH @ '' to permit writes.'')), s)
      else (case ensureRootResolved drive s of
              (Inl e, s1) \<Rightarrow> Some (Inl e, s1)
            | (Inr _, s1) \<Rightarrow>
                assertWriteAccessInternal_loop drive targetIds actionDescription label s1))"

definition assertWriteAccessForFile ::
  "drive \<Rightarrow> string \<Rightarrow> string \<Rightarrow> gate \<Rightarrow> ((UserError + unit) \<times> gate) option" where
  "assertWriteAccessForFile drive fileId actionDescription s =
     assertWriteAccessInternal drive [fileId] actionDescription File_label s"

definition assertWriteAccessForParent ::
  "drive \<Rightarrow> string option \<Rightarrow> string \<Rightarrow> gate \<Rightarrow> ((UserError + unit) \<times> gate) option" where
  "assertWriteAccessForParent drive parentId actionDescription s =
     (let targetId = (case parentId of None \<Rightarrow> ''root'' | Some p \<Rightarrow> p)
      in assertWriteAccessInternal drive [targetId] actionDescription Parent_label s)"

definition assertWriteAccessForParents ::
  "drive \<Rightarrow> string list option \<Rightarrow> string \<Rightarrow> gate \<Rightarrow> ((UserError + unit) \<times> gate) option" where
  "assertWriteAccessForParents drive parentIds actionDescription s =
     (let targets = (case parentIds of
                       None \<Rightarrow> [''root'']
                     | Some ps \<Rightarrow> if length ps > 0 then ps else [''root''])
      in assertWriteAccessInternal drive targets actionDescription Parents_label s)"

text \<open>The module as it is when it has just been loaded with a given allowlist.\<close>

definition initial :: "AllowlistState \<Rightarrow> gate" where
  "initial st = \<lparr>allowlistState = st, parentCache = Map.empty, rootResolved = False,
                 lookups = [], visited = []\<rparr>"

subsection \<open>The hierarchy of the remote store\<close>

text \<open>
  The parent links the search can follow: from a non-empty identifier the store answers
  for, to each non-empty parent in its answer (the loop skips an empty identifier).
  \<open>ancestors\<close> is everything reachable over them, the start included.
\<close>

definition parent_rel :: "drive \<Rightarrow> (string \<times> string) set" where
  "parent_rel drive =
     {(k, p). k \<noteq> [] \<and> p \<noteq> [] \<and>
              (\<exists>r. drive k = Inr r \<and> p \<in> set (parents (FileNode_of k r)))}"

definition ancestors :: "drive \<Rightarrow> string \<Rightarrow> string set" where
  "ancestors drive fileId = (parent_rel drive)\<^sup>* `` {fileId}"

text \<open>
  An identifier the two tests of the loop accept: it is in the set, or the identifier
  the store answers for it is.
\<close>

definition listed :: "drive \<Rightarrow> string set \<Rightarrow> string \<Rightarrow> bool" where
  "listed drive allowlistIds k =
     (k \<noteq> [] \<and> (k \<in> allowlistIds \<or>
                 (\<exists>r. drive k = Inr r \<and> id_n (FileNode_of k r) \<in> allowlistIds)))"

text \<open>Some start has an ancestor, itself included, that the loop accepts.\<close>

definition within :: "drive \<Rightarrow> string set \<Rightarrow> string set \<Rightarrow> bool" where
  "within drive allowlistIds starts =
     (\<exists>t\<in>starts. \<exists>k\<in>ancestors drive t. listed drive allowlistIds k)"

text \<open>The set of identifiers once \<open>ensureRootResolved\<close> has run.\<close>

definition resolved_ids :: "drive \<Rightarrow> gate \<Rightarrow> string set" where
  "resolved_ids drive s =
     (if rootResolved s \<or> ''root'' \<notin> ids (allowlistState s) then ids (allowlistState s)
      else (case drive ''root'' of
              Inl _ \<Rightarrow> ids (allowlistState s)
            | Inr r \<Rightarrow> insert (id_n (FileNode_of ''root'' r)) (ids (allowlistState s))))"

text \<open>
  The cache agrees with the store: an entry is the node the store answers for its key.
  The store is consistent: asked for the identifier it has answered, it answers the same
  node. With a consistent store every state the module reaches agrees with it.
\<close>

definition coherent :: "drive \<Rightarrow> gate \<Rightarrow> bool" where
  "coherent drive s =
     (\<forall>k n. parentCache s k = Some n \<longrightarrow> (\<exists>r. drive k = Inr r \<and> n = FileNode_of k r))"

definition consistent :: "drive \<Rightarrow> bool" where
  "consistent drive =
     (\<forall>k r. drive k = Inr r \<longrightarrow>
        (\<exists>r'. drive (id_n (FileNode_of k r)) = Inr r' \<and>
              FileNode_of (id_n (FileNode_of k r)) r' = FileNode_of k r))"

text \<open>
  Once the root is resolved, the identifier the store answers for \<open>root\<close> is in the set.
\<close>

definition root_known :: "drive \<Rightarrow> gate \<Rightarrow> bool" where
  "root_known drive s =
     (rootResolved s \<longrightarrow>
        (\<exists>r. drive ''root'' = Inr r \<and> id_n (FileNode_of ''root'' r) \<in> ids (allowlistState s)))"

text \<open>
  What a run from \<open>s\<close> to \<open>s'\<close> with result \<open>res\<close> did to the store: it asked for
  identifiers that were not cached, each once; each one the store answered for is cached
  afterwards; one the store failed for is the last one asked, and its failure is the result.
\<close>

definition orderly :: "drive \<Rightarrow> gate \<Rightarrow> gate \<Rightarrow> UserError + 'a \<Rightarrow> bool" where
  "orderly drive s s' res =
     (\<exists>new. lookups s' = lookups s @ new \<and> distinct new
          \<and> set new \<inter> dom (parentCache s) = {}
          \<and> dom (parentCache s) \<subseteq> dom (parentCache s')
          \<and> (\<forall>k\<in>set new.
                 (\<forall>r. drive k = Inr r \<longrightarrow> k \<in> dom (parentCache s'))
               \<and> (\<forall>err. drive k = Inl err \<longrightarrow>
                           last new = k \<and> res = Inl (getFileNode_catch err k))))"

subsection \<open>Example stores\<close>

definition not_found :: remote_error where
  "not_found = \<lparr>code = Some 404, response_message = Some ''File not found.'',
                 message = Some ''File not found.''\<rparr>"

definition denied :: remote_error where
  "denied = \<lparr>code = Some 403, response_message = None, message = Some ''Forbidden''\<rparr>"

text \<open>Two folders, each the other's parent.\<close>

definition drive_cycle :: drive where
  "drive_cycle k =
     (if k = ''A'' then Inr \<lparr>data_id = Some ''A'', data_parents = Some [''B'']\<rparr>
      else if k = ''B'' then Inr \<lparr>data_id = Some ''B'', data_parents = Some [''A'']\<rparr>
      else Inl not_found)"

text \<open>
  A file \<open>A\<close> in the folder \<open>F1\<close>, which is in the root \<open>R0\<close>; a file \<open>Z\<close> with
  no parent; a file \<open>P\<close> the caller may not read; the alias \<open>root\<close> for \<open>R0\<close>.
\<close>

definition drive_tree :: drive where
  "drive_tree k =
     (if k = ''A'' then Inr \<lparr>data_id = Some ''A'', data_parents = Some [''F1'']\<rparr>
      else if k = ''F1'' then Inr \<lparr>data_id = Some ''F1'', data_parents = Some [''R0'']\<rparr>
      else if k = ''Z'' then Inr \<lparr>data_id = Some ''Z'', data_parents = None\<rparr>
      else if k = ''root'' \<or> k = ''R0'' then Inr \<lparr>data_id = Some ''R0'', data_parents = None\<rparr>
      else if k = ''P'' then Inl denied
      else Inl not_found)"

definition no_file :: "string \<Rightarrow> thrown + string" where
  "no_file p = Inl \<lparr>thrown_message = Some (''ENOENT: no such file or directory, open '' @ p),
                    thrown_String = ''Error: ENOENT: no such file or directory, open '' @ p\<rparr>"

definition allow_file :: "string \<Rightarrow> thrown + string" where
  "allow_file p = (if p = ''/etc/allow'' then Inr (''F3,F4'' @ [CHR 0x0A]) else no_file p)"

definition no_json :: "string \<Rightarrow> thrown + json" where
  "no_json t = Inl \<lparr>thrown_message = Some ''Unexpected end of JSON input'',
                    thrown_String = ''SyntaxError: Unexpected end of JSON input''\<rparr>"

definition allow :: "string set \<Rightarrow> AllowlistState" where
  "allow L = \<lparr>enabled = True, ids = L, sources = [''env:'' @ ENV_ALLOWLIST], error = None\<rparr>"

section \<open>Properties\<close>

subsection \<open>Fetching a node\<close>

lemma getFileNode_hit:
  "parentCache s fileId = Some n \<Longrightarrow> getFileNode drive fileId s = (Inr n, s)"
  by (simp add: getFileNode_def)

lemma getFileNode_fail:
  "parentCache s fileId = None \<Longrightarrow> drive fileId = Inl err \<Longrightarrow>
   getFileNode drive fileId s
     = (Inl (getFileNode_catch err fileId), s\<lparr>lookups := lookups s @ [fileId]\<rparr>)"
  by (simp add: getFileNode_def)

lemma id_n_differs_truthy:
  "id_n (FileNode_of fileId r) \<noteq> fileId \<Longrightarrow> truthy (id_n (FileNode_of fileId r))"
  by (auto simp: FileNode_of_def or_else_def truthy_def split: option.splits if_splits)

lemma getFileNode_fetch:
  assumes "parentCache s fileId = None" and "drive fileId = Inr r"
  shows "getFileNode drive fileId s
     = (Inr (FileNode_of fileId r),
        s\<lparr>lookups := lookups s @ [fileId],
          parentCache := (parentCache s)(fileId \<mapsto> FileNode_of fileId r,
                                         id_n (FileNode_of fileId r) \<mapsto> FileNode_of fileId r)\<rparr>)"
proof (cases "id_n (FileNode_of fileId r) = fileId")
  case True
  then show ?thesis using assms by (simp add: getFileNode_def Let_def)
next
  case False
  then show ?thesis
    using assms id_n_differs_truthy [of fileId r] by (simp add: getFileNode_def Let_def)
qed

subsection \<open>The tests before the search\<close>

lemma internal_disabled:
  "\<not> enabled (allowlistState s) \<Longrightarrow>
   assertWriteAccessInternal drive targetIds a l s = Some (Inr (), s)"
  by (simp add: assertWriteAccessInternal_def)

lemma loadAllowlistState_unset:
  "loadAllowlistState readFileSync JSON_parse None None
     = \<lparr>enabled = False, ids = {}, sources = [], error = None\<rparr>"
  by (simp add: loadAllowlistState_def)

text \<open>
  Claim C2. When neither configuration source is set the allowlist is disabled, and then
  each of the three assertions succeeds for every target, whether the store knows it or
  not, and leaves the module as it was: no call of the store is recorded.
\<close>

theorem disabled_allows_every_write:
  assumes "\<not> enabled (allowlistState s)"
  shows "assertWriteAccessForFile drive fileId a s = Some (Inr (), s)
       \<and> assertWriteAccessForParent drive parentId a s = Some (Inr (), s)
       \<and> assertWriteAccessForParents drive parentIds a s = Some (Inr (), s)"
  using assms
  by (simp add: assertWriteAccessForFile_def assertWriteAccessForParent_def
      assertWriteAccessForParents_def internal_disabled)

theorem disabled_allows_every_write_witness:
  "assertWriteAccessForFile drive_tree ''nonexistent'' ''delete''
      (initial (loadAllowlistState no_file no_json None None))
     = Some (Inr (), initial \<lparr>enabled = False, ids = {}, sources = [], error = None\<rparr>)
   \<and> lookups (initial (loadAllowlistState no_file no_json None None)) = []"
  using disabled_allows_every_write
          [of "initial (loadAllowlistState no_file no_json None None)"
              drive_tree "''nonexistent''" "''delete''" None None]
  by (simp add: loadAllowlistState_unset initial_def)

lemma internal_empty:
  "enabled (allowlistState s) \<Longrightarrow> error (allowlistState s) = None \<Longrightarrow>
   ids (allowlistState s) = {} \<Longrightarrow>
   assertWriteAccessInternal drive targetIds a l s
     = Some (Inl (UserError (''Write allowlist is enabled but empty (''
                   @ formatSources (allowlistState s) @ ''). Configure '' @ ENV_ALLOWLIST
                   @ '' or '' @ ENV_ALLOWLIST_PATH @ '' to permit writes.'')), s)"
  by (simp add: assertWriteAccessInternal_def)

lemma internal_config_error:
  "enabled (allowlistState s) \<Longrightarrow> error (allowlistState s) = Some e \<Longrightarrow> e \<noteq> [] \<Longrightarrow>
   assertWriteAccessInternal drive targetIds a l s
     = Some (Inl (UserError (''Write allowlist configuration error (''
                   @ formatSources (allowlistState s) @ ''): '' @ e
                   @ ''. Writes are blocked.'')), s)"
  by (simp add: assertWriteAccessInternal_def truthy_def)

text \<open>
  Claim C3. With the allowlist enabled, no configuration error and an empty set of
  identifiers, each of the three assertions rejects every target with the message of the
  empty allowlist, and leaves the module as it was: the store is not asked.
\<close>

theorem empty_allowlist_blocks_every_write:
  assumes "enabled (allowlistState s)" and "error (allowlistState s) = None"
    and "ids (allowlistState s) = {}"
  shows "\<exists>m. assertWriteAccessForFile drive fileId a s = Some (Inl (UserError m), s)
           \<and> assertWriteAccessForParent drive parentId a s = Some (Inl (UserError m), s)
           \<and> assertWriteAccessForParents drive parentIds a s = Some (Inl (UserError m), s)
           \<and> m = ''Write allowlist is enabled but empty ('' @ formatSources (allowlistState s)
                   @ ''). Configure GOOGLE_DRIVE_WRITE_ALLOWLIST or ''
                   @ ''GOOGLE_DRIVE_WRITE_ALLOWLIST_PATH to permit writes.''"
  using assms
  by (simp add: assertWriteAccessForFile_def assertWriteAccessForParent_def
      assertWriteAccessForParents_def internal_empty ENV_ALLOWLIST_def ENV_ALLOWLIST_PATH_def)

theorem empty_allowlist_blocks_every_write_witness:
  "assertWriteAccessForFile drive_tree ''A'' ''rename''
      (initial (loadAllowlistState no_file no_json (Some '' , '') None))
     = Some (Inl (UserError (''Write allowlist is enabled but empty (''
                   @ ''env:GOOGLE_DRIVE_WRITE_ALLOWLIST). Configure GOOGLE_DRIVE_WRITE_ALLOWLIST''
                   @ '' or GOOGLE_DRIVE_WRITE_ALLOWLIST_PATH to permit writes.'')),
             initial (loadAllowlistState no_file no_json (Some '' , '') None))"
proof -
  have st: "loadAllowlistState no_file no_json (Some '' , '') None
              = \<lparr>enabled = True, ids = {}, sources = [''env:GOOGLE_DRIVE_WRITE_ALLOWLIST''],
                 error = None\<rparr>"
    by (simp add: loadAllowlistState_def parseAllowlistInput_def trim_def is_space_def
        truthy_def startsWith_def splitList_def ENV_ALLOWLIST_def)
  show ?thesis
    using empty_allowlist_blocks_every_write
            [of "initial (loadAllowlistState no_file no_json (Some '' , '') None)"
                drive_tree "''A''" "''rename''" None None]
    by (simp add: st initial_def formatSources_def)
qed

lemma join_Nil_iff:
  "join sep xs = [] \<longleftrightarrow> xs = [] \<or> xs = [[]] \<or> (sep = [] \<and> (\<forall>x\<in>set xs. x = []))"
  by (induction sep xs rule: join.induct) auto

lemma loadAllowlistState_error_nonempty:
  assumes "\<And>t e. JSON_parse t = Inl e \<Longrightarrow> or_else (thrown_message e) (thrown_String e) \<noteq> []"
  shows "error (loadAllowlistState readFileSync JSON_parse allowlistValue allowlistPath) \<noteq> Some []"
proof -
  have p: "parseAllowlistInput JSON_parse v = Inl e \<Longrightarrow>
           or_else (thrown_message e) (thrown_String e) \<noteq> []" for v e
    using assms
    by (auto simp: parseAllowlistInput_def Let_def or_else_def truthy_def
             split: if_splits sum.splits json.splits)
  show ?thesis
    using p
    by (auto simp: loadAllowlistState_def join_Nil_iff split: option.splits sum.splits)
qed

text \<open>
  Claim C4. With the allowlist enabled and a configuration error recorded, each of the
  three assertions rejects with the message of the configuration error, whatever the set
  of identifiers and the target are, and leaves the module as it was: the store is not
  asked. The source tests the error text for truth, so the text is not empty; the lemma
  \<open>loadAllowlistState_error_nonempty\<close> below shows that the loader records no empty text.
\<close>

theorem configuration_error_blocks_every_write:
  assumes "enabled (allowlistState s)" and "error (allowlistState s) = Some e" and "e \<noteq> []"
  shows "\<exists>m. assertWriteAccessForFile drive fileId a s = Some (Inl (UserError m), s)
           \<and> assertWriteAccessForParent drive parentId a s = Some (Inl (UserError m), s)
           \<and> assertWriteAccessForParents drive parentIds a s = Some (Inl (UserError m), s)
           \<and> m = ''Write allowlist configuration error ('' @ formatSources (allowlistState s)
                   @ ''): '' @ e @ ''. Writes are blocked.''"
  using assms
  by (simp add: assertWriteAccessForFile_def assertWriteAccessForParent_def
      assertWriteAccessForParents_def internal_config_error)



theorem configuration_error_blocks_every_write_witness:
  "assertWriteAccessForFile drive_tree ''F1'' ''rename''
      (initial (loadAllowlistState no_file no_json (Some ''F1'') (Some ''/etc/allow'')))
     = Some (Inl (UserError (''Write allowlist configuration error (''
                   @ ''env:GOOGLE_DRIVE_WRITE_ALLOWLIST, file:/etc/allow): ''
                   @ ''Failed to read /etc/allow: ENOENT: no such file or directory, ''
                   @ ''open /etc/allow. Writes are blocked.'')),
             initial (loadAllowlistState no_file no_json (Some ''F1'') (Some ''/etc/allow'')))"
proof -
  have st: "loadAllowlistState no_file no_json (Some ''F1'') (Some ''/etc/allow'')
              = \<lparr>enabled = True, ids = {''F1''},
                 sources = [''env:GOOGLE_DRIVE_WRITE_ALLOWLIST'', ''file:/etc/allow''],
                 error = Some (''Failed to read /etc/allow: ENOENT: no such file or directory, ''
                               @ ''open /etc/allow'')\<rparr>"
    by (auto simp: loadAllowlistState_def parseAllowlistInput_def trim_def is_space_def
        truthy_def startsWith_def splitList_def ENV_ALLOWLIST_def no_file_def or_else_def)
  show ?thesis
    using configuration_error_blocks_every_write
            [of "initial (loadAllowlistState no_file no_json (Some ''F1'') (Some ''/etc/allow''))"
                "''Failed to read /etc/allow: ENOENT: no such file or directory, open /etc/allow''"
                drive_tree "''F1''" "''rename''" None None]
    by (simp add: st initial_def formatSources_def)
qed

subsection \<open>What a lookup leaves in the cache\<close>

text \<open>
  Claim C10. For an identifier that is not in the cache: when the store fails, the cache
  is left as it was, and asking again calls the store again; when the store answers, the
  node is stored under the identifier asked for and under the identifier answered, and
  asking again calls the store no more.
\<close>

theorem failed_lookup_is_not_cached:
  assumes "parentCache s fileId = None"
  shows "(\<forall>err. drive fileId = Inl err \<longrightarrow>
            getFileNode drive fileId s
              = (Inl (getFileNode_catch err fileId), s\<lparr>lookups := lookups s @ [fileId]\<rparr>)
          \<and> parentCache (snd (getFileNode drive fileId s)) = parentCache s
          \<and> lookups (snd (getFileNode drive fileId (snd (getFileNode drive fileId s))))
              = lookups s @ [fileId, fileId])
       \<and> (\<forall>r. drive fileId = Inr r \<longrightarrow>
            fst (getFileNode drive fileId s) = Inr (FileNode_of fileId r)
          \<and> parentCache (snd (getFileNode drive fileId s))
              = (parentCache s)(fileId \<mapsto> FileNode_of fileId r,
                                id_n (FileNode_of fileId r) \<mapsto> FileNode_of fileId r)
          \<and> lookups (snd (getFileNode drive fileId (snd (getFileNode drive fileId s))))
              = lookups s @ [fileId])"
  using assms by (simp add: getFileNode_fail getFileNode_fetch getFileNode_hit)


subsection \<open>Induction over a search that returns\<close>

text \<open>
  One case for each way through the body of the loop; the two cases that go round the loop
  again come with the run of the rest and the property for it.
\<close>

lemma loop_induct [consumes 1, case_names Empty Skip Hit Fail Found Step]:
  assumes run: "isIdWithinAllowlist_loop drive allowlistIds queue seen s = Some y"
    and Empty: "\<And>seen s. P [] seen s (Inr False, s)"
    and Skip: "\<And>currentId rest seen s y.
        \<not> truthy currentId \<or> currentId \<in> seen \<Longrightarrow>
        isIdWithinAllowlist_loop drive allowlistIds rest seen s = Some y \<Longrightarrow>
        P rest seen s y \<Longrightarrow> P (currentId # rest) seen s y"
    and Hit: "\<And>currentId rest seen s.
        truthy currentId \<Longrightarrow> currentId \<notin> seen \<Longrightarrow> currentId \<in> allowlistIds \<Longrightarrow>
        P (currentId # rest) seen s (Inr True, s\<lparr>visited := visited s @ [currentId]\<rparr>)"
    and Fail: "\<And>currentId rest seen s e s1.
        truthy currentId \<Longrightarrow> currentId \<notin> seen \<Longrightarrow> currentId \<notin> allowlistIds \<Longrightarrow>
        getFileNode drive currentId (s\<lparr>visited := visited s @ [currentId]\<rparr>) = (Inl e, s1) \<Longrightarrow>
        P (currentId # rest) seen s (Inl e, s1)"
    and Found: "\<And>currentId rest seen s node s1.
        truthy currentId \<Longrightarrow> currentId \<notin> seen \<Longrightarrow> currentId \<notin> allowlistIds \<Longrightarrow>
        getFileNode drive currentId (s\<lparr>visited := visited s @ [currentId]\<rparr>) = (Inr node, s1) \<Longrightarrow>
        id_n node \<in> allowlistIds \<Longrightarrow>
        P (currentId # rest) seen s (Inr True, s1)"
    and Step: "\<And>currentId rest seen s node s1 y.
        truthy currentId \<Longrightarrow> currentId \<notin> seen \<Longrightarrow> currentId \<notin> allowlistIds \<Longrightarrow>
        getFileNode drive currentId (s\<lparr>visited := visited s @ [currentId]\<rparr>) = (Inr node, s1) \<Longrightarrow>
        id_n node \<notin> allowlistIds \<Longrightarrow>
        isIdWithinAllowlist_loop drive allowlistIds
          (rest @ filter (\<lambda>parentId. parentId \<notin> insert currentId seen) (parents node))
          (insert currentId seen) s1 = Some y \<Longrightarrow>
        P (rest @ filter (\<lambda>parentId. parentId \<notin> insert currentId seen) (parents node))
          (insert currentId seen) s1 y \<Longrightarrow>
        P (currentId # rest) seen s y"
  shows "P queue seen s y"
proof -
  have "d = drive \<and> a = allowlistIds \<longrightarrow>
          isIdWithinAllowlist_loop d a q sn st = Some r \<and> P q sn st r"
    if "isIdWithinAllowlist_loop d a q sn st = Some r" for d a q sn st r
  proof (rule isIdWithinAllowlist_loop.raw_induct
           [where P = "\<lambda>d a q sn st r. d = drive \<and> a = allowlistIds \<longrightarrow>
                          isIdWithinAllowlist_loop d a q sn st = Some r \<and> P q sn st r",
            OF _ that],
         goal_cases)
    case (1 loop d a q sn st r)
    show ?case
    proof (intro impI, elim conjE)
      assume da: "d = drive" "a = allowlistIds"
      note IH = 1(1) [rule_format]
      note body = 1(2)
      show "isIdWithinAllowlist_loop d a q sn st = Some r \<and> P q sn st r"
      proof (cases q)
        case Nil
        then show ?thesis using body Empty
          by (subst isIdWithinAllowlist_loop.simps) auto
      next
        case (Cons currentId rest)
        let ?s0 = "st\<lparr>visited := visited st @ [currentId]\<rparr>"
        show ?thesis
        proof (cases "\<not> truthy currentId \<or> currentId \<in> sn")
          case True
          then have "loop d a rest sn st = Some r" using body Cons by auto
          from 1(1) [OF this] da
          have "isIdWithinAllowlist_loop d a rest sn st = Some r" "P rest sn st r" by auto
          then show ?thesis using True Cons da Skip
            by (subst isIdWithinAllowlist_loop.simps) auto
        next
          case skip: False
          show ?thesis
          proof (cases "currentId \<in> a")
            case True
            then show ?thesis using body Cons skip da Hit
              by (subst isIdWithinAllowlist_loop.simps) auto
          next
            case notin: False
            obtain g s1 where g: "getFileNode d currentId ?s0 = (g, s1)" by force
            show ?thesis
            proof (cases g)
              case (Inl e)
              then show ?thesis using body Cons skip notin g da Fail [of currentId sn st e s1 rest]
                by (subst isIdWithinAllowlist_loop.simps) auto
            next
              case (Inr node)
              show ?thesis
              proof (cases "id_n node \<in> a")
                case True
                then show ?thesis
                  using body Cons skip notin g Inr da Found [of currentId sn st node s1 rest]
                  by (subst isIdWithinAllowlist_loop.simps) auto
              next
                case False
                let ?q = "rest @ filter (\<lambda>parentId. parentId \<notin> insert currentId sn) (parents node)"
                have "loop d a ?q (insert currentId sn) s1 = Some r"
                  using body Cons skip notin g Inr False by simp
                from 1(1) [OF this] da
                have rec: "isIdWithinAllowlist_loop d a ?q (insert currentId sn) s1 = Some r"
                  "P ?q (insert currentId sn) s1 r" by auto
                have "P (currentId # rest) sn st r"
                  using Step [of currentId sn st node s1 rest r] skip notin g Inr False rec da
                  by auto
                moreover have "isIdWithinAllowlist_loop d a q sn st = Some r"
                  using Cons skip notin g Inr False rec
                  by (subst isIdWithinAllowlist_loop.simps) auto
                ultimately show ?thesis using Cons by simp
              qed
            qed
          qed
        qed
      qed
    qed
  qed
  from this [OF run] show ?thesis by simp
qed


subsection \<open>What a run asks of the store\<close>

lemma orderly_refl: "orderly drive s s res"
  by (simp add: orderly_def)

lemma orderly_Inr: "orderly drive s s' (Inr x) \<Longrightarrow> orderly drive s s' res"
  unfolding orderly_def by fastforce

lemma orderly_Inl:
  "orderly drive s s' (Inl e :: UserError + 'a) \<Longrightarrow> orderly drive s s' (Inl e :: UserError + 'b)"
  unfolding orderly_def by fastforce

lemma orderly_from:
  "orderly drive (s\<lparr>visited := v\<rparr>) s' res = orderly drive s s' res"
  by (simp add: orderly_def)

lemma orderly_to:
  "orderly drive s (s'\<lparr>visited := v\<rparr>) res = orderly drive s s' res"
  "orderly drive s (s'\<lparr>rootResolved := b\<rparr>) res = orderly drive s s' res"
  "orderly drive s (s'\<lparr>allowlistState := a\<rparr>) res = orderly drive s s' res"
  by (simp_all add: orderly_def)

lemma orderly_getFileNode:
  assumes "getFileNode drive fileId s = (res, s')"
  shows "orderly drive s s' res"
proof (cases "parentCache s fileId")
  case (Some n)
  then show ?thesis using assms by (simp add: getFileNode_hit orderly_def)
next
  case None
  show ?thesis
  proof (cases "drive fileId")
    case (Inl err)
    then show ?thesis
      using assms None
      by (auto simp: getFileNode_fail orderly_def domIff)
  next
    case (Inr r)
    then show ?thesis
      using assms None
      by (auto simp: getFileNode_fetch orderly_def domIff)
  qed
qed

lemma orderly_trans:
  assumes "orderly drive s s1 (Inr x)" and "orderly drive s1 s2 res"
  shows "orderly drive s s2 res"
proof -
  from assms(1) obtain n1 where n1: "lookups s1 = lookups s @ n1" "distinct n1"
    "set n1 \<inter> dom (parentCache s) = {}" "dom (parentCache s) \<subseteq> dom (parentCache s1)"
    and ok1: "\<And>k r. k \<in> set n1 \<Longrightarrow> drive k = Inr r \<Longrightarrow> k \<in> dom (parentCache s1)"
    and bad1: "\<And>k err. k \<in> set n1 \<Longrightarrow> drive k = Inl err \<Longrightarrow> False"
    unfolding orderly_def by blast
  from assms(2) obtain n2 where n2: "lookups s2 = lookups s1 @ n2" "distinct n2"
    "set n2 \<inter> dom (parentCache s1) = {}" "dom (parentCache s1) \<subseteq> dom (parentCache s2)"
    and ok2: "\<And>k r. k \<in> set n2 \<Longrightarrow> drive k = Inr r \<Longrightarrow> k \<in> dom (parentCache s2)"
    and bad2: "\<And>k err. k \<in> set n2 \<Longrightarrow> drive k = Inl err \<Longrightarrow>
                 last n2 = k \<and> res = Inl (getFileNode_catch err k)"
    unfolding orderly_def by blast
  have c1: "k \<in> dom (parentCache s1)" if "k \<in> set n1" for k
    using ok1 bad1 that by (cases "drive k") blast+
  have disj: "set n1 \<inter> set n2 = {}"
    using c1 n2(3) by blast
  have "lookups s2 = lookups s @ (n1 @ n2)" using n1(1) n2(1) by simp
  moreover have "distinct (n1 @ n2)" using n1(2) n2(2) disj by simp
  moreover have "set (n1 @ n2) \<inter> dom (parentCache s) = {}"
    using n1(3) n1(4) n2(3) by auto
  moreover have "dom (parentCache s) \<subseteq> dom (parentCache s2)" using n1(4) n2(4) by blast
  moreover have "\<forall>k\<in>set (n1 @ n2).
        (\<forall>r. drive k = Inr r \<longrightarrow> k \<in> dom (parentCache s2))
      \<and> (\<forall>err. drive k = Inl err \<longrightarrow>
             last (n1 @ n2) = k \<and> res = Inl (getFileNode_catch err k))"
  proof
    fix k assume kin: "k \<in> set (n1 @ n2)"
    have "k \<in> dom (parentCache s2)" if "drive k = Inr r" for r
    proof -
      from kin have "k \<in> set n1 \<or> k \<in> set n2" by simp
      then show ?thesis using c1 ok2 n2(4) that by blast
    qed
    moreover have "last (n1 @ n2) = k \<and> res = Inl (getFileNode_catch err k)"
      if "drive k = Inl err" for err
    proof -
      from kin that have kn2: "k \<in> set n2" using bad1 by auto
      then have "n2 \<noteq> []" by auto
      then show ?thesis using bad2 [OF kn2 that] by simp
    qed
    ultimately show "(\<forall>r. drive k = Inr r \<longrightarrow> k \<in> dom (parentCache s2))
      \<and> (\<forall>err. drive k = Inl err \<longrightarrow>
             last (n1 @ n2) = k \<and> res = Inl (getFileNode_catch err k))" by blast
  qed
  ultimately show ?thesis unfolding orderly_def by blast
qed

lemma getFileNode_frame:
  assumes "getFileNode drive fileId s = (res, s')"
  shows "allowlistState s' = allowlistState s \<and> rootResolved s' = rootResolved s
       \<and> visited s' = visited s"
  using assms
  by (auto simp: getFileNode_def Let_def split: option.splits sum.splits if_splits)

lemma loop_orderly:
  assumes "isIdWithinAllowlist_loop drive allowlistIds queue seen s = Some y"
  shows "orderly drive s (snd y) (fst y)"
  using assms
proof (induction rule: loop_induct)
  case (Empty seen s)
  show ?case by (simp add: orderly_refl)
next
  case (Skip currentId rest seen s y)
  then show ?case by simp
next
  case (Hit currentId rest seen s)
  show ?case by (simp add: orderly_to orderly_refl)
next
  case (Fail currentId rest seen s e s1)
  from orderly_getFileNode [OF Fail(4)] show ?case
    by (simp add: orderly_from orderly_Inl)
next
  case (Found currentId rest seen s node s1)
  from orderly_getFileNode [OF Found(4)] show ?case
    by (auto simp: orderly_from intro: orderly_Inr)
next
  case (Step currentId rest seen s node s1 y)
  from orderly_getFileNode [OF Step(4)] have "orderly drive s s1 (Inr node)"
    by (simp add: orderly_from)
  from this Step(7) show ?case by (rule orderly_trans)
qed

lemma loop_frame:
  assumes "isIdWithinAllowlist_loop drive allowlistIds queue seen s = Some y"
  shows "allowlistState (snd y) = allowlistState s \<and> rootResolved (snd y) = rootResolved s"
  using assms
proof (induction rule: loop_induct)
  case (Fail currentId rest seen s e s1)
  from getFileNode_frame [OF Fail(4)] show ?case by simp
next
  case (Found currentId rest seen s node s1)
  from getFileNode_frame [OF Found(4)] show ?case by simp
next
  case (Step currentId rest seen s node s1 y)
  from getFileNode_frame [OF Step(4)] Step(7) show ?case by simp
qed simp_all

lemma loop_visited:
  assumes "isIdWithinAllowlist_loop drive allowlistIds queue seen s = Some y"
  shows "\<exists>new. visited (snd y) = visited s @ new \<and> distinct new \<and> set new \<inter> seen = {}"
  using assms
proof (induction rule: loop_induct)
  case (Empty seen s)
  show ?case by simp
next
  case (Skip currentId rest seen s y)
  then show ?case by simp
next
  case (Hit currentId rest seen s)
  then show ?case by simp
next
  case (Fail currentId rest seen s e s1)
  from getFileNode_frame [OF Fail(4)] Fail(2) show ?case by simp
next
  case (Found currentId rest seen s node s1)
  from getFileNode_frame [OF Found(4)] Found(2) show ?case by simp
next
  case (Step currentId rest seen s node s1 y)
  from Step(7) obtain new where new: "visited (snd y) = visited s1 @ new" "distinct new"
    "set new \<inter> insert currentId seen = {}" by blast
  from getFileNode_frame [OF Step(4)] have "visited s1 = visited s @ [currentId]" by simp
  with new Step(2) have "visited (snd y) = visited s @ (currentId # new)
      \<and> distinct (currentId # new) \<and> set (currentId # new) \<inter> seen = {}"
    by auto
  then show ?case by blast
qed


lemma ensureRootResolved_orderly:
  assumes "ensureRootResolved drive s = (res, s')"
  shows "orderly drive s s' res"
proof (cases "rootResolved s \<or> ''root'' \<notin> ids (allowlistState s)")
  case True
  then show ?thesis using assms by (auto simp: ensureRootResolved_def orderly_refl)
next
  case False
  obtain g s1 where g: "getFileNode drive ''root'' s = (g, s1)" by force
  from orderly_getFileNode [OF g] have o: "orderly drive s s1 g" .
  show ?thesis
  proof (cases g)
    case (Inl e)
    then show ?thesis using assms False g o
      by (auto simp: ensureRootResolved_def intro: orderly_Inl)
  next
    case (Inr node)
    then show ?thesis using assms False g o
      by (auto simp: ensureRootResolved_def Let_def orderly_to intro: orderly_Inr)
  qed
qed

lemma isIdWithinAllowlist_orderly:
  "isIdWithinAllowlist drive fileId allowlistIds s = Some (res, s') \<Longrightarrow> orderly drive s s' res"
  using loop_orderly [of drive allowlistIds "[fileId]" "{}" s "(res, s')"]
  by (simp add: isIdWithinAllowlist_def)

lemma internal_loop_orderly:
  "assertWriteAccessInternal_loop drive targetIds a label s = Some (res, s') \<Longrightarrow>
   orderly drive s s' res"
proof (induction targetIds arbitrary: s)
  case Nil
  then show ?case by (auto simp: orderly_refl)
next
  case (Cons targetId rest)
  from Cons.prems obtain r1 s1
    where run: "isIdWithinAllowlist drive targetId (ids (allowlistState s)) s = Some (r1, s1)"
    by (auto split: option.splits)
  from isIdWithinAllowlist_orderly [OF run] have o1: "orderly drive s s1 r1" .
  show ?case
  proof (cases r1)
    case (Inl e)
    then show ?thesis using Cons.prems run o1 by (auto intro: orderly_Inl)
  next
    case (Inr allowed)
    show ?thesis
    proof (cases allowed)
      case False
      then show ?thesis using Cons.prems run o1 Inr by (auto intro: orderly_Inr)
    next
      case True
      then have "assertWriteAccessInternal_loop drive rest a label s1 = Some (res, s')"
        using Cons.prems run Inr by simp
      from Cons.IH [OF this] have "orderly drive s1 s' res" .
      with o1 Inr show ?thesis by (auto intro: orderly_trans)
    qed
  qed
qed

lemma internal_orderly:
  assumes "assertWriteAccessInternal drive targetIds a label s = Some (res, s')"
  shows "orderly drive s s' res"
proof (cases "\<not> enabled (allowlistState s)
              \<or> (case error (allowlistState s) of None \<Rightarrow> False | Some e \<Rightarrow> truthy e)
              \<or> ids (allowlistState s) = {}")
  case True
  then show ?thesis using assms
    by (auto simp: assertWriteAccessInternal_def orderly_refl split: if_splits)
next
  case False
  obtain g s1 where g: "ensureRootResolved drive s = (g, s1)" by force
  from ensureRootResolved_orderly [OF g] have o: "orderly drive s s1 g" .
  show ?thesis
  proof (cases g)
    case (Inl e)
    then show ?thesis using assms False g o
      by (auto simp: assertWriteAccessInternal_def intro: orderly_Inl)
  next
    case (Inr u)
    then have "assertWriteAccessInternal_loop drive targetIds a label s1 = Some (res, s')"
      using assms False g by (auto simp: assertWriteAccessInternal_def)
    from internal_loop_orderly [OF this] o Inr show ?thesis by (auto intro: orderly_trans)
  qed
qed

lemma getFileNode_catch_cases:
  "(code err = Some 404 \<longrightarrow>
      getFileNode_catch err k
        = UserError (''Cannot verify allowlist: file not found (ID: '' @ k @ '').''))
 \<and> (code err = Some 403 \<longrightarrow>
      getFileNode_catch err k
        = UserError (''Cannot verify allowlist: permission denied for file (ID: '' @ k @ '').''))
 \<and> (code err \<noteq> Some 404 \<and> code err \<noteq> Some 403 \<longrightarrow>
      getFileNode_catch err k
        = UserError (''Cannot verify allowlist for file '' @ k @ '': ''
            @ or_else (response_message err) (or_else (message err) ''Unknown error'')))"
  by (simp add: getFileNode_catch_def)

lemmas run_defs =
  assertWriteAccessForFile_def assertWriteAccessForParent_def assertWriteAccessForParents_def
  assertWriteAccessInternal_def ensureRootResolved_def isIdWithinAllowlist_def
  isIdWithinAllowlist_loop.simps getFileNode_def getFileNode_catch_def FileNode_of_def
  initial_def allow_def truthy_def or_else_def Let_def formatSources_def
  ENV_ALLOWLIST_def ENV_ALLOWLIST_PATH_def

theorem failed_lookup_is_not_cached_witness:
  "parentCache (initial (allow {''F1''})) ''P'' = None
   \<and> getFileNode drive_tree ''P'' (initial (allow {''F1''}))
       = (Inl (UserError ''Cannot verify allowlist: permission denied for file (ID: P).''),
          (initial (allow {''F1''}))\<lparr>lookups := [''P'']\<rparr>)
   \<and> lookups (snd (getFileNode drive_tree ''P''
                       (snd (getFileNode drive_tree ''P'' (initial (allow {''F1''}))))))
       = [''P'', ''P'']
   \<and> parentCache (snd (getFileNode drive_tree ''root'' (initial (allow {''F1''}))))
       = [''root'' \<mapsto> \<lparr>id_n = ''R0'', parents = []\<rparr>,
          ''R0'' \<mapsto> \<lparr>id_n = ''R0'', parents = []\<rparr>]
   \<and> lookups (snd (getFileNode drive_tree ''root''
                       (snd (getFileNode drive_tree ''root'' (initial (allow {''F1''}))))))
       = [''root'']"
proof -
  have c: "parentCache (initial (allow {''F1''})) ''P'' = None" by (simp add: initial_def)
  have d: "drive_tree ''P'' = Inl denied" by (simp add: drive_tree_def)
  have m: "getFileNode_catch denied ''P''
             = UserError ''Cannot verify allowlist: permission denied for file (ID: P).''"
    by (simp add: getFileNode_catch_def denied_def)
  have l: "lookups (initial (allow {''F1''})) = []" by (simp add: initial_def)
  from failed_lookup_is_not_cached [OF c, of drive_tree] d
  have A: "getFileNode drive_tree ''P'' (initial (allow {''F1''}))
             = (Inl (getFileNode_catch denied ''P''),
                (initial (allow {''F1''}))
                  \<lparr>lookups := lookups (initial (allow {''F1''})) @ [''P'']\<rparr>)"
    and B: "lookups (snd (getFileNode drive_tree ''P''
                       (snd (getFileNode drive_tree ''P'' (initial (allow {''F1''}))))))
             = lookups (initial (allow {''F1''})) @ [''P'', ''P'']"
    by blast+
  from A m l have A': "getFileNode drive_tree ''P'' (initial (allow {''F1''}))
       = (Inl (UserError ''Cannot verify allowlist: permission denied for file (ID: P).''),
          (initial (allow {''F1''}))\<lparr>lookups := [''P'']\<rparr>)"
    by simp
  from B l have B': "lookups (snd (getFileNode drive_tree ''P''
                       (snd (getFileNode drive_tree ''P'' (initial (allow {''F1''}))))))
       = [''P'', ''P'']"
    by simp
  have c2: "parentCache (initial (allow {''F1''})) ''root'' = None" by (simp add: initial_def)
  have d2: "drive_tree ''root'' = Inr \<lparr>data_id = Some ''R0'', data_parents = None\<rparr>"
    by (simp add: drive_tree_def)
  have n2: "FileNode_of ''root'' \<lparr>data_id = Some ''R0'', data_parents = None\<rparr>
              = \<lparr>id_n = ''R0'', parents = []\<rparr>"
    by (simp add: FileNode_of_def or_else_def truthy_def)
  have e2: "parentCache (initial (allow {''F1''})) = Map.empty" by (simp add: initial_def)
  from failed_lookup_is_not_cached [OF c2, of drive_tree] d2
  have C: "parentCache (snd (getFileNode drive_tree ''root'' (initial (allow {''F1''}))))
             = (parentCache (initial (allow {''F1''})))
                 (''root'' \<mapsto> FileNode_of ''root'' \<lparr>data_id = Some ''R0'', data_parents = None\<rparr>,
                  id_n (FileNode_of ''root'' \<lparr>data_id = Some ''R0'', data_parents = None\<rparr>)
                    \<mapsto> FileNode_of ''root'' \<lparr>data_id = Some ''R0'', data_parents = None\<rparr>)"
    and D: "lookups (snd (getFileNode drive_tree ''root''
                       (snd (getFileNode drive_tree ''root'' (initial (allow {''F1''}))))))
             = lookups (initial (allow {''F1''})) @ [''root'']"
    by blast+
  from C n2 e2 have C': "parentCache (snd (getFileNode drive_tree ''root''
                                           (initial (allow {''F1''}))))
       = [''root'' \<mapsto> \<lparr>id_n = ''R0'', parents = []\<rparr>,
          ''R0'' \<mapsto> \<lparr>id_n = ''R0'', parents = []\<rparr>]"
    by simp
  from D l have D': "lookups (snd (getFileNode drive_tree ''root''
                       (snd (getFileNode drive_tree ''root'' (initial (allow {''F1''}))))))
       = [''root'']"
    by simp
  from c A' B' C' D' show ?thesis by (intro conjI)
qed

subsection \<open>Plain-text allowlists\<close>

lemma split_on_not_Nil: "split_on P s \<noteq> []"
  by (induction s) (auto split: list.splits)

lemma trim_Nil: "trim [] = []"
  by (simp add: trim_def)

lemma trim_leading: "is_space c \<Longrightarrow> trim (c # w) = trim w"
  by (simp add: trim_def)

lemma trim_trailing: "is_space c \<Longrightarrow> trim (w @ [c]) = trim w"
proof -
  assume c: "is_space c"
  have a: "dropWhile is_space (w @ [c])
          = (if \<forall>x\<in>set w. is_space x then [] else dropWhile is_space w @ [c])"
    using c by (induction w) auto
  have b: "(\<forall>x\<in>set w. is_space x) \<Longrightarrow> dropWhile is_space w = []"
    by (induction w) auto
  show ?thesis using c by (auto simp: trim_def a b)
qed

lemma plain_text_ids_leading:
  assumes "is_space c"
  shows "plain_text_ids (c # s) = plain_text_ids s"
proof (cases "c = CHR 0x0A \<or> c = CHR '',''")
  case True
  then show ?thesis by (auto simp: plain_text_ids_def trim_Nil)
next
  case False
  obtain w ws where ws: "split_on (\<lambda>c. c = CHR 0x0A \<or> c = CHR '','') s = w # ws"
    using split_on_not_Nil by (metis list.exhaust)
  then show ?thesis using False assms by (simp add: plain_text_ids_def trim_leading)
qed

lemma plain_text_ids_dropWhile:
  "plain_text_ids (dropWhile is_space s) = plain_text_ids s"
  by (induction s) (simp_all add: plain_text_ids_leading)

lemma split_on_snoc:
  "split_on P (s @ [c])
     = (if P c then split_on P s @ [[]]
        else butlast (split_on P s) @ [last (split_on P s) @ [c]])"
proof (induction s)
  case Nil
  show ?case by simp
next
  case (Cons x s)
  obtain w ws where ws: "split_on P s = w # ws"
    using split_on_not_Nil by (metis list.exhaust)
  show ?case
  proof (cases "P c")
    case True
    then show ?thesis using Cons ws by (auto split: list.splits)
  next
    case False
    then show ?thesis using Cons ws by (cases ws) (auto split: list.splits)
  qed
qed

lemma plain_text_ids_trailing:
  assumes "is_space c"
  shows "plain_text_ids (s @ [c]) = plain_text_ids s"
proof -
  let ?P = "\<lambda>c. c = CHR 0x0A \<or> c = CHR '',''"
  let ?ps = "split_on ?P s"
  show ?thesis
  proof (cases "?P c")
    case True
    then show ?thesis by (auto simp: plain_text_ids_def split_on_snoc trim_Nil)
  next
    case False
    have "map trim ?ps = map trim (butlast ?ps @ [last ?ps])"
      by (simp add: split_on_not_Nil)
    also have "\<dots> = map trim (butlast ?ps) @ [trim (last ?ps @ [c])]"
      using assms by (simp add: trim_trailing)
    also have "\<dots> = map trim (split_on ?P (s @ [c]))"
      using False by (simp add: split_on_snoc)
    finally show ?thesis by (simp add: plain_text_ids_def)
  qed
qed

lemma plain_text_ids_drop_trailing:
  "plain_text_ids (rev (dropWhile is_space t)) = plain_text_ids (rev t)"
  by (induction t) (simp_all add: plain_text_ids_trailing)

lemma plain_text_ids_trim: "plain_text_ids (trim s) = plain_text_ids s"
  using plain_text_ids_drop_trailing [of "rev (dropWhile is_space s)"]
  by (simp add: trim_def plain_text_ids_dropWhile)

lemma dropWhile_prefix_kept:
  assumes "u = [] \<or> \<not> P (hd u)"
  shows "dropWhile P (rev (dropWhile P (rev u))) = rev (dropWhile P (rev u))"
proof (cases "rev (dropWhile P (rev u))")
  case Nil
  show ?thesis unfolding Nil by simp
next
  case (Cons x xs)
  have "rev (takeWhile P (rev u) @ dropWhile P (rev u)) = u"
    by (simp only: takeWhile_dropWhile_id rev_rev_ident)
  then have "rev (dropWhile P (rev u)) @ rev (takeWhile P (rev u)) = u"
    by (simp only: rev_append)
  then have "(x # xs) @ rev (takeWhile P (rev u)) = u"
    unfolding Cons .
  then obtain t where "u = x # t" by (metis append_Cons)
  then have "u \<noteq> []" "hd u = x" by simp_all
  with assms have "\<not> P x" by simp
  then show ?thesis unfolding Cons by simp
qed

lemma trim_trim: "trim (trim s) = trim s"
proof -
  let ?u = "dropWhile is_space s"
  have "?u = [] \<or> \<not> is_space (hd ?u)" by (metis hd_dropWhile)
  from dropWhile_prefix_kept [of ?u is_space, OF this]
  have "dropWhile is_space (trim s) = trim s" by (simp only: trim_def)
  then have "trim (trim s) = rev (dropWhile is_space (rev (trim s)))"
    by (simp only: trim_def [of "trim s"])
  also have "\<dots> = rev (dropWhile is_space (dropWhile is_space (rev ?u)))"
    by (simp only: trim_def rev_rev_ident)
  also have "\<dots> = trim s" by (simp add: trim_def)
  finally show ?thesis .
qed

lemma splitList_trimmed:
  "set (filter (\<lambda>i. length i > 0) (map trim (splitList (trim v)))) = plain_text_ids v"
proof -
  have "filter (\<lambda>i. length i > 0) (map trim (splitList t)) = splitList t" for t
    by (simp add: splitList_def filter_map comp_def trim_trim)
  then show ?thesis
    using plain_text_ids_trim [of v] by (simp add: plain_text_ids_def splitList_def)
qed

lemma parse_plain:
  assumes "plain_text v"
  shows "parseAllowlistInput JSON_parse v = Inr (if trim v = [] then [] else splitList (trim v))"
  using assms by (simp add: parseAllowlistInput_def plain_text_def truthy_def)

lemma plain_text_ids_blank: "trim v = [] \<Longrightarrow> plain_text_ids v = {}"
  using plain_text_ids_trim [of v] by (simp add: plain_text_ids_def trim_Nil)

lemma parse_plain_ids:
  assumes "plain_text v"
  shows "\<exists>xs. parseAllowlistInput JSON_parse v = Inr xs
            \<and> set (filter (\<lambda>i. length i > 0) (map trim xs)) = plain_text_ids v"
  using parse_plain [OF assms, of JSON_parse] splitList_trimmed [of v] plain_text_ids_blank [of v]
  by auto


text \<open>
  Claim C8. For an inline value that, once trimmed, begins with neither a brace nor a
  bracket, the loader's set of identifiers is the set of the non-empty trimmed pieces of
  the value between newlines and commas, and no error is recorded. With a file of the same
  kind as the second source the set is the union of the two, each identifier once.
\<close>

theorem plain_text_allowlist:
  assumes "plain_text v"
  shows "ids (loadAllowlistState readFileSync JSON_parse (Some v) None) = plain_text_ids v
       \<and> error (loadAllowlistState readFileSync JSON_parse (Some v) None) = None
       \<and> (\<forall>p c. readFileSync p = Inr c \<and> plain_text c \<longrightarrow>
              ids (loadAllowlistState readFileSync JSON_parse (Some v) (Some p))
                = plain_text_ids v \<union> plain_text_ids c
            \<and> error (loadAllowlistState readFileSync JSON_parse (Some v) (Some p)) = None
            \<and> ids (loadAllowlistState readFileSync JSON_parse None (Some p))
                = plain_text_ids c)"
proof -
  from parse_plain_ids [OF assms, of JSON_parse] obtain xs
    where xs: "parseAllowlistInput JSON_parse v = Inr xs"
      "set (filter (\<lambda>i. length i > 0) (map trim xs)) = plain_text_ids v" by blast
  have one: "ids (loadAllowlistState readFileSync JSON_parse (Some v) None) = plain_text_ids v
       \<and> error (loadAllowlistState readFileSync JSON_parse (Some v) None) = None"
    using xs by (simp add: loadAllowlistState_def)
  have two: "ids (loadAllowlistState readFileSync JSON_parse (Some v) (Some p))
                = plain_text_ids v \<union> plain_text_ids c
            \<and> error (loadAllowlistState readFileSync JSON_parse (Some v) (Some p)) = None
            \<and> ids (loadAllowlistState readFileSync JSON_parse None (Some p))
                = plain_text_ids c"
    if "readFileSync p = Inr c" "plain_text c" for p c
  proof -
    from parse_plain_ids [OF that(2), of JSON_parse] obtain ys
      where ys: "parseAllowlistInput JSON_parse c = Inr ys"
        "set (filter (\<lambda>i. length i > 0) (map trim ys)) = plain_text_ids c" by blast
    show ?thesis using xs ys that(1) by (auto simp: loadAllowlistState_def)
  qed
  from one two show ?thesis by blast
qed

theorem plain_text_allowlist_witness:
  "plain_text (''F1, F2'' @ [CHR 0x0A] @ ''F3'')
   \<and> ids (loadAllowlistState allow_file no_json (Some (''F1, F2'' @ [CHR 0x0A] @ ''F3'')) None)
       = {''F1'', ''F2'', ''F3''}
   \<and> ids (loadAllowlistState allow_file no_json (Some (''F1, F2'' @ [CHR 0x0A] @ ''F3''))
            (Some ''/etc/allow''))
       = {''F1'', ''F2'', ''F3'', ''F4''}"
proof -
  have p: "plain_text (''F1, F2'' @ [CHR 0x0A] @ ''F3'')"
    by (simp add: plain_text_def trim_def is_space_def startsWith_def)
  have q: "plain_text (''F3,F4'' @ [CHR 0x0A])"
    by (simp add: plain_text_def trim_def is_space_def startsWith_def)
  have f: "allow_file ''/etc/allow'' = Inr (''F3,F4'' @ [CHR 0x0A])"
    by (simp add: allow_file_def)
  have i: "plain_text_ids (''F1, F2'' @ [CHR 0x0A] @ ''F3'') = {''F1'', ''F2'', ''F3''}"
    by (simp add: plain_text_ids_def trim_def is_space_def)
  have j: "plain_text_ids (''F3,F4'' @ [CHR 0x0A]) = {''F3'', ''F4''}"
    by (simp add: plain_text_ids_def trim_def is_space_def)
  from plain_text_allowlist [OF p, of allow_file no_json] f q
  have "ids (loadAllowlistState allow_file no_json (Some (''F1, F2'' @ [CHR 0x0A] @ ''F3'')) None)
          = plain_text_ids (''F1, F2'' @ [CHR 0x0A] @ ''F3'')"
    and "ids (loadAllowlistState allow_file no_json (Some (''F1, F2'' @ [CHR 0x0A] @ ''F3''))
            (Some ''/etc/allow''))
          = plain_text_ids (''F1, F2'' @ [CHR 0x0A] @ ''F3'')
              \<union> plain_text_ids (''F3,F4'' @ [CHR 0x0A])"
    by blast+
  with p i j show ?thesis by auto
qed


subsection \<open>The search returns on a finite hierarchy\<close>

lemma getFileNode_parents_closed:
  assumes g: "getFileNode drive k s = (Inr node, s1)"
    and k: "k \<in> U" "k \<noteq> []"
    and closed: "\<forall>k\<in>U. k \<noteq> [] \<longrightarrow> (\<forall>r. drive k = Inr r \<longrightarrow>
                    set (parents (FileNode_of k r)) \<subseteq> insert [] U)"
    and cache: "\<forall>k\<in>U. k \<noteq> [] \<longrightarrow> (\<forall>n. parentCache s k = Some n \<longrightarrow>
                   set (parents n) \<subseteq> insert [] U)"
  shows "set (parents node) \<subseteq> insert [] U
       \<and> (\<forall>k\<in>U. k \<noteq> [] \<longrightarrow> (\<forall>n. parentCache s1 k = Some n \<longrightarrow>
                   set (parents n) \<subseteq> insert [] U))"
proof (cases "parentCache s k")
  case (Some n)
  then show ?thesis using g k cache by (auto simp: getFileNode_hit)
next
  case None
  show ?thesis
  proof (cases "drive k")
    case (Inl err)
    then show ?thesis using g None by (simp add: getFileNode_fail)
  next
    case (Inr r)
    then have n: "node = FileNode_of k r"
      and s1: "parentCache s1 = (parentCache s)(k \<mapsto> node, id_n node \<mapsto> node)"
      using g None by (auto simp: getFileNode_fetch)
    have p: "set (parents node) \<subseteq> insert [] U" using n closed k Inr by blast
    show ?thesis using p cache unfolding s1 by (auto split: if_splits)
  qed
qed

lemma loop_returns:
  assumes fin: "finite U"
    and closed: "\<forall>k\<in>U. k \<noteq> [] \<longrightarrow> (\<forall>r. drive k = Inr r \<longrightarrow>
                    set (parents (FileNode_of k r)) \<subseteq> insert [] U)"
  shows "card (U - seen) = n \<Longrightarrow> set queue \<subseteq> insert [] U \<Longrightarrow>
         (\<forall>k\<in>U. k \<noteq> [] \<longrightarrow> (\<forall>n. parentCache s k = Some n \<longrightarrow>
                   set (parents n) \<subseteq> insert [] U)) \<Longrightarrow>
         \<exists>y. isIdWithinAllowlist_loop drive allowlistIds queue seen s = Some y"
proof (induction n arbitrary: queue seen s rule: less_induct)
  case (less n)
  from less.prems(2,3) show ?case
  proof (induction queue arbitrary: s)
    case Nil
    show ?case by (subst isIdWithinAllowlist_loop.simps) simp
  next
    case (Cons currentId rest)
    let ?s0 = "s\<lparr>visited := visited s @ [currentId]\<rparr>"
    show ?case
    proof (cases "\<not> truthy currentId \<or> currentId \<in> seen")
      case True
      from Cons.IH [of s] Cons.prems obtain y
        where "isIdWithinAllowlist_loop drive allowlistIds rest seen s = Some y" by auto
      then show ?thesis using True by (subst isIdWithinAllowlist_loop.simps) simp
    next
      case skip: False
      then have cur: "currentId \<in> U" "currentId \<noteq> []" "currentId \<notin> seen"
        using Cons.prems(1) by (auto simp: truthy_def)
      show ?thesis
      proof (cases "currentId \<in> allowlistIds")
        case True
        then show ?thesis using skip by (subst isIdWithinAllowlist_loop.simps) simp
      next
        case notin: False
        obtain g s1 where g: "getFileNode drive currentId ?s0 = (g, s1)" by force
        show ?thesis
        proof (cases g)
          case (Inl e)
          then show ?thesis using skip notin g by (subst isIdWithinAllowlist_loop.simps) simp
        next
          case (Inr node)
          show ?thesis
          proof (cases "id_n node \<in> allowlistIds")
            case True
            then show ?thesis using skip notin g Inr
              by (subst isIdWithinAllowlist_loop.simps) simp
          next
            case False
            let ?q = "rest @ filter (\<lambda>parentId. parentId \<notin> insert currentId seen) (parents node)"
            have c0: "\<forall>k\<in>U. k \<noteq> [] \<longrightarrow> (\<forall>n. parentCache ?s0 k = Some n \<longrightarrow>
                        set (parents n) \<subseteq> insert [] U)"
              using Cons.prems(2) by simp
            from getFileNode_parents_closed [OF g [unfolded Inr] cur(1,2) closed c0]
            have pn: "set (parents node) \<subseteq> insert [] U"
              and c1: "\<forall>k\<in>U. k \<noteq> [] \<longrightarrow> (\<forall>n. parentCache s1 k = Some n \<longrightarrow>
                        set (parents n) \<subseteq> insert [] U)"
              by blast+
            have q: "set ?q \<subseteq> insert [] U" using pn Cons.prems(1) by auto
            have "U - insert currentId seen \<subset> U - seen" using cur by blast
            then have "card (U - insert currentId seen) < card (U - seen)"
              using fin by (intro psubset_card_mono) auto
            then have m: "card (U - insert currentId seen) < n" using less.prems(1) by simp
            from less.IH [OF m refl q c1] obtain y
              where "isIdWithinAllowlist_loop drive allowlistIds ?q (insert currentId seen) s1
                       = Some y" by blast
            then show ?thesis using skip notin g Inr False
              by (subst isIdWithinAllowlist_loop.simps) simp
          qed
        qed
      qed
    qed
  qed
qed

subsection \<open>A consistent store keeps the cache in agreement\<close>

lemma coherent_frame [simp]:
  "coherent drive (s\<lparr>visited := v\<rparr>) = coherent drive s"
  "coherent drive (s\<lparr>lookups := l\<rparr>) = coherent drive s"
  "coherent drive (s\<lparr>rootResolved := b\<rparr>) = coherent drive s"
  "coherent drive (s\<lparr>allowlistState := a\<rparr>) = coherent drive s"
  by (simp_all add: coherent_def)

lemma getFileNode_coherent:
  assumes g: "getFileNode drive k s = (res, s')"
    and cons: "consistent drive" and coh: "coherent drive s"
  shows "coherent drive s' \<and> parentCache s \<subseteq>\<^sub>m parentCache s'
       \<and> (\<forall>n. res = Inr n \<longrightarrow> (\<exists>r. drive k = Inr r \<and> n = FileNode_of k r)
                                 \<and> parentCache s' k = Some n)
       \<and> (\<forall>e. res = Inl e \<longrightarrow> (\<exists>err. drive k = Inl err \<and> e = getFileNode_catch err k)
                                 \<and> parentCache s k = None
                                 \<and> s' = s\<lparr>lookups := lookups s @ [k]\<rparr>)"
proof (cases "parentCache s k")
  case (Some n)
  then show ?thesis using g coh by (auto simp: getFileNode_hit coherent_def)
next
  case None
  show ?thesis
  proof (cases "drive k")
    case (Inl err)
    then show ?thesis using g None coh by (auto simp: getFileNode_fail coherent_def)
  next
    case (Inr r)
    let ?n = "FileNode_of k r"
    from cons Inr obtain r' where r': "drive (id_n ?n) = Inr r'" "FileNode_of (id_n ?n) r' = ?n"
      unfolding consistent_def by blast
    have res: "res = Inr ?n"
      and s': "parentCache s' = (parentCache s)(k \<mapsto> ?n, id_n ?n \<mapsto> ?n)"
      using g None Inr by (auto simp: getFileNode_fetch)
    have c: "coherent drive s'"
      unfolding coherent_def s' using coh Inr r' by (auto simp: coherent_def)
    have old: "parentCache s (id_n ?n) = Some m \<Longrightarrow> m = ?n" for m
      using coh r' unfolding coherent_def by fastforce
    have le: "parentCache s \<subseteq>\<^sub>m parentCache s'"
      unfolding s' map_le_def using None old by (auto simp: domIff)
    show ?thesis using res c le Inr s' by auto
  qed
qed

lemma loop_coherent:
  assumes "isIdWithinAllowlist_loop drive allowlistIds queue seen s = Some y"
    and "consistent drive"
  shows "coherent drive s \<Longrightarrow> coherent drive (snd y) \<and> parentCache s \<subseteq>\<^sub>m parentCache (snd y)"
  using assms(1)
proof (induction rule: loop_induct)
  case (Empty seen s)
  then show ?case by simp
next
  case (Skip currentId rest seen s y)
  then show ?case by simp
next
  case (Hit currentId rest seen s)
  then show ?case by simp
next
  case (Fail currentId rest seen s e s1)
  from Fail(5) have "coherent drive (s\<lparr>visited := visited s @ [currentId]\<rparr>)"
    by simp
  from getFileNode_coherent [OF Fail(4) assms(2) this] show ?case by auto
next
  case (Found currentId rest seen s node s1)
  from Found(6) have "coherent drive (s\<lparr>visited := visited s @ [currentId]\<rparr>)"
    by simp
  from getFileNode_coherent [OF Found(4) assms(2) this] show ?case by auto
next
  case (Step currentId rest seen s node s1 y)
  from Step(8) have "coherent drive (s\<lparr>visited := visited s @ [currentId]\<rparr>)"
    by simp
  from getFileNode_coherent [OF Step(4) assms(2) this]
  have c1: "coherent drive s1" and le: "parentCache s \<subseteq>\<^sub>m parentCache s1" by simp_all
  from Step(7) [OF c1] le show ?case by (auto intro: map_le_trans)
qed


subsection \<open>What the search decides\<close>

lemma ancestors_self: "fileId \<in> ancestors drive fileId"
  by (simp add: ancestors_def)

lemma ancestors_parent:
  "k \<in> ancestors drive fileId \<Longrightarrow> (k, p) \<in> parent_rel drive \<Longrightarrow> p \<in> ancestors drive fileId"
  unfolding ancestors_def by (auto intro: rtrancl_into_rtrancl)

lemma ancestors_subset:
  assumes "fileId \<in> U" and "\<forall>k\<in>U. \<forall>p. (k, p) \<in> parent_rel drive \<longrightarrow> p \<in> U"
  shows "ancestors drive fileId \<subseteq> U"
proof
  fix k assume "k \<in> ancestors drive fileId"
  then have "(fileId, k) \<in> (parent_rel drive)\<^sup>*" by (simp add: ancestors_def)
  then show "k \<in> U" using assms by (induction rule: rtrancl_induct) auto
qed

lemma ancestors_closed:
  "\<forall>k\<in>ancestors drive fileId. k \<noteq> [] \<longrightarrow> (\<forall>r. drive k = Inr r \<longrightarrow>
      set (parents (FileNode_of k r)) \<subseteq> insert [] (ancestors drive fileId))"
proof (intro ballI impI allI subsetI)
  fix k r p
  assume k: "k \<in> ancestors drive fileId" "k \<noteq> []" "drive k = Inr r"
    and p: "p \<in> set (parents (FileNode_of k r))"
  show "p \<in> insert [] (ancestors drive fileId)"
  proof (cases "p = []")
    case True then show ?thesis by simp
  next
    case False
    with k p have "(k, p) \<in> parent_rel drive" by (auto simp: parent_rel_def)
    with k(1) show ?thesis by (auto intro: ancestors_parent)
  qed
qed

lemma coherent_cache_closed:
  assumes "coherent drive s"
  shows "\<forall>k\<in>ancestors drive fileId. k \<noteq> [] \<longrightarrow> (\<forall>n. parentCache s k = Some n \<longrightarrow>
           set (parents n) \<subseteq> insert [] (ancestors drive fileId))"
  using assms ancestors_closed [of drive fileId] unfolding coherent_def by blast

lemma isIdWithinAllowlist_returns:
  assumes "finite (ancestors drive fileId)" and "coherent drive s"
  shows "\<exists>y. isIdWithinAllowlist drive fileId allowlistIds s = Some y"
  unfolding isIdWithinAllowlist_def
  using loop_returns [OF assms(1) ancestors_closed refl _ coherent_cache_closed [OF assms(2)],
          where queue = "[fileId]" and seen = "{}" and allowlistIds = allowlistIds]
  by (simp add: ancestors_self)

lemma within_Un: "within drive L (A \<union> B) = (within drive L A \<or> within drive L B)"
  by (auto simp: within_def)

lemma within_empty: "\<not> within drive L {}"
  by (simp add: within_def)

lemma within_mono: "A \<subseteq> B \<Longrightarrow> within drive L A \<Longrightarrow> within drive L B"
  by (auto simp: within_def)

lemma closed_reach:
  assumes "(t, k) \<in> R\<^sup>*" and "t \<in> S" and "\<And>a b. a \<in> S \<Longrightarrow> (a, b) \<in> R \<Longrightarrow> b \<in> S"
  shows "k \<in> S"
  using assms by (induction rule: rtrancl_induct) blast+

lemma empty_reach:
  assumes "([], k) \<in> (parent_rel drive)\<^sup>*"
  shows "k = []"
  using assms by (induction rule: rtrancl_induct) (simp_all add: parent_rel_def)

lemma within_blank: "\<not> within drive L {[]}"
  using empty_reach by (auto simp: within_def ancestors_def listed_def)

lemma within_listed: "listed drive L t \<Longrightarrow> within drive L {t}"
  by (auto simp: within_def ancestors_self)

lemma within_parent:
  assumes "(t, p) \<in> parent_rel drive" and "within drive L {p}"
  shows "within drive L {t}"
proof -
  from assms(2) obtain k where "(p, k) \<in> (parent_rel drive)\<^sup>*" "listed drive L k"
    by (auto simp: within_def ancestors_def)
  with assms(1) have "(t, k) \<in> (parent_rel drive)\<^sup>*" "listed drive L k"
    by (auto intro: converse_rtrancl_into_rtrancl)
  then show ?thesis by (auto simp: within_def ancestors_def)
qed

lemma within_closed:
  assumes "\<And>a. a \<in> S \<Longrightarrow> \<not> listed drive L a"
    and "\<And>a b. a \<in> S \<Longrightarrow> (a, b) \<in> parent_rel drive \<Longrightarrow> b \<in> S"
  shows "\<not> within drive L S"
proof
  assume "within drive L S"
  then obtain t k where "t \<in> S" "(t, k) \<in> (parent_rel drive)\<^sup>*" "listed drive L k"
    by (auto simp: within_def ancestors_def)
  with closed_reach [OF this(2,1)] assms show False by blast
qed

text \<open>
  What has been seen is not listed, and its parents have been seen or are waiting.
\<close>

lemma loop_decides:
  assumes "isIdWithinAllowlist_loop drive allowlistIds queue seen s = Some y"
    and cons: "consistent drive"
  shows "coherent drive s \<Longrightarrow>
         (\<forall>k\<in>seen. \<not> listed drive allowlistIds k
                  \<and> (\<forall>p. (k, p) \<in> parent_rel drive \<longrightarrow> p \<in> seen \<union> set queue)) \<Longrightarrow>
         (\<forall>b. fst y = Inr b \<longrightarrow> b = within drive allowlistIds (set queue \<union> seen))
       \<and> (\<forall>e. fst y = Inl e \<longrightarrow>
            (\<exists>k err. drive k = Inl err
                \<and> k \<in> set (drop (length (lookups s)) (lookups (snd y)))))"
  using assms(1)
proof (induction rule: loop_induct)
  case (Empty seen s)
  have "\<not> within drive allowlistIds seen"
    using Empty(2) by (intro within_closed) auto
  then show ?case by simp
next
  case (Skip currentId rest seen s y)
  have inv: "\<forall>k\<in>seen. \<not> listed drive allowlistIds k
                  \<and> (\<forall>p. (k, p) \<in> parent_rel drive \<longrightarrow> p \<in> seen \<union> set rest)"
    using Skip(1,5) by (auto simp: parent_rel_def truthy_def)
  have "within drive allowlistIds (set (currentId # rest) \<union> seen)
          = within drive allowlistIds (set rest \<union> seen)"
  proof (cases "currentId \<in> seen")
    case True
    then have "set (currentId # rest) \<union> seen = set rest \<union> seen" by auto
    then show ?thesis by simp
  next
    case False
    with Skip(1) have "currentId = []" by (simp add: truthy_def)
    then have "set (currentId # rest) \<union> seen = {[]} \<union> (set rest \<union> seen)" by simp
    then show ?thesis by (metis within_Un within_blank)
  qed
  with Skip(3) [OF Skip(4) inv] show ?case by simp
next
  case (Hit currentId rest seen s)
  then have "listed drive allowlistIds currentId" by (simp add: listed_def truthy_def)
  then have "within drive allowlistIds {currentId}" by (rule within_listed)
  moreover have "{currentId} \<subseteq> set (currentId # rest) \<union> seen" by simp
  ultimately have "within drive allowlistIds (set (currentId # rest) \<union> seen)"
    by (rule within_mono [rotated])
  then show ?case by simp
next
  case (Fail currentId rest seen s e s1)
  from getFileNode_coherent [OF Fail(4) cons] Fail(5)
  obtain err where "drive currentId = Inl err"
    "s1 = s\<lparr>visited := visited s @ [currentId], lookups := lookups s @ [currentId]\<rparr>"
    by auto
  then show ?case by auto
next
  case (Found currentId rest seen s node s1)
  from getFileNode_coherent [OF Found(4) cons] Found(6)
  obtain r where "drive currentId = Inr r" "node = FileNode_of currentId r" by auto
  with Found(1,5) have "listed drive allowlistIds currentId" by (auto simp: listed_def truthy_def)
  then have "within drive allowlistIds {currentId}" by (rule within_listed)
  moreover have "{currentId} \<subseteq> set (currentId # rest) \<union> seen" by simp
  ultimately have "within drive allowlistIds (set (currentId # rest) \<union> seen)"
    by (rule within_mono [rotated])
  then show ?case by simp
next
  case (Step currentId rest seen s node s1 y)
  let ?fresh = "filter (\<lambda>parentId. parentId \<notin> insert currentId seen) (parents node)"
  let ?q = "rest @ ?fresh"
  from getFileNode_coherent [OF Step(4) cons] Step(8)
  obtain r where r: "drive currentId = Inr r" "node = FileNode_of currentId r"
    and c1: "coherent drive s1" by auto
  have unlisted: "\<not> listed drive allowlistIds currentId"
    using Step(3,5) r by (auto simp: listed_def)
  have par: "(currentId, p) \<in> parent_rel drive \<longleftrightarrow> p \<noteq> [] \<and> p \<in> set (parents node)" for p
    using r Step(1) by (auto simp: parent_rel_def truthy_def)
  have inv: "\<forall>k\<in>insert currentId seen. \<not> listed drive allowlistIds k
                  \<and> (\<forall>p. (k, p) \<in> parent_rel drive \<longrightarrow> p \<in> insert currentId seen \<union> set ?q)"
    using Step(9) unlisted par by auto
  have fresh: "within drive allowlistIds {currentId}" if "within drive allowlistIds (set ?fresh)"
  proof -
    from that obtain t where t: "t \<in> set (parents node)" "within drive allowlistIds {t}"
      by (auto simp: within_def)
    then have "t \<noteq> []" using within_blank by auto
    with t par have "(currentId, t) \<in> parent_rel drive" by simp
    from this t(2) show ?thesis by (rule within_parent)
  qed
  have sets: "set (currentId # rest) \<union> seen \<subseteq> set ?q \<union> insert currentId seen" by auto
  have "within drive allowlistIds (set ?q \<union> insert currentId seen)
          = within drive allowlistIds (set (currentId # rest) \<union> seen)" (is "?L = ?R")
  proof
    assume ?L
    then have "within drive allowlistIds (set ?fresh)
                 \<or> within drive allowlistIds (set (currentId # rest) \<union> seen)"
      by (auto simp: within_def)
    with fresh show ?R by (auto simp: within_def)
  next
    assume ?R with sets show ?L by (rule within_mono)
  qed
  moreover have "\<exists>new. lookups s1 = lookups s @ new"
    using orderly_getFileNode [OF Step(4)] by (auto simp: orderly_def)
  moreover from loop_orderly [OF Step(6)] have "\<exists>new. lookups (snd y) = lookups s1 @ new"
    by (auto simp: orderly_def)
  ultimately show ?case using Step(7) [OF c1 inv] by auto
qed


subsection \<open>One target\<close>

lemma ensureRootResolved_result:
  assumes e: "ensureRootResolved drive s = (res, s1)" and coh: "coherent drive s"
    and cons: "consistent drive"
  shows "coherent drive s1 \<and> parentCache s \<subseteq>\<^sub>m parentCache s1 \<and> visited s1 = visited s
       \<and> enabled (allowlistState s1) = enabled (allowlistState s)
       \<and> error (allowlistState s1) = error (allowlistState s)
       \<and> (\<forall>u. res = Inr u \<longrightarrow> ids (allowlistState s1) = resolved_ids drive s
                  \<and> (rootResolved s1 \<or> ''root'' \<notin> ids (allowlistState s1)))
       \<and> (\<forall>e. res = Inl e \<longrightarrow> (\<exists>err. drive ''root'' = Inl err
                                        \<and> e = getFileNode_catch err ''root'')
                  \<and> s1 = s\<lparr>lookups := lookups s @ [''root'']\<rparr>
                  \<and> \<not> rootResolved s \<and> ''root'' \<in> ids (allowlistState s))"
proof (cases "rootResolved s \<or> ''root'' \<notin> ids (allowlistState s)")
  case True
  then show ?thesis using e coh by (auto simp: ensureRootResolved_def resolved_ids_def)
next
  case False
  obtain g s0 where g: "getFileNode drive ''root'' s = (g, s0)" by force
  note gc = getFileNode_coherent [OF g cons coh]
  note gf = getFileNode_frame [OF g]
  show ?thesis
  proof (cases g)
    case (Inl x)
    then show ?thesis using e False g gc gf by (auto simp: ensureRootResolved_def)
  next
    case (Inr node)
    with gc obtain r where r: "drive ''root'' = Inr r" "node = FileNode_of ''root'' r" by auto
    have s1: "s1 = (if truthy (id_n node) \<and> id_n node \<noteq> ''root''
                    then s0\<lparr>allowlistState :=
                              (allowlistState s0)\<lparr>ids := insert (id_n node) (ids (allowlistState s0))\<rparr>\<rparr>
                    else s0)\<lparr>rootResolved := True\<rparr>"
      and res: "res = Inr ()"
      using e False g Inr by (auto simp: ensureRootResolved_def Let_def)
    have idn: "id_n node \<noteq> ''root'' \<Longrightarrow> truthy (id_n node)"
      using r(2) id_n_differs_truthy [of "''root''" r] by simp
    have ids: "ids (allowlistState s1) = insert (id_n node) (ids (allowlistState s))"
    proof (cases "id_n node = ''root''")
      case True
      then show ?thesis using s1 gf False by auto
    next
      case diff: False
      with idn have "truthy (id_n node)" by simp
      with diff show ?thesis using s1 gf by simp
    qed
    have "resolved_ids drive s = insert (id_n node) (ids (allowlistState s))"
      using False r by (simp add: resolved_ids_def)
    with ids s1 res gc gf show ?thesis by auto
  qed
qed

lemma single_loop:
  "assertWriteAccessInternal_loop drive [t] a label s
     = (case isIdWithinAllowlist_loop drive (ids (allowlistState s)) [t] {} s of
          None \<Rightarrow> None
        | Some (Inl e, s1) \<Rightarrow> Some (Inl e, s1)
        | Some (Inr allowed, s1) \<Rightarrow>
            if \<not> allowed then
              Some (Inl (UserError (''Write blocked by allowlist: '' @ a
                          @ ''. The target '' @ label_text label @ '' ('' @ t
                          @ '') is not within a whitelisted file or folder.'')), s1)
            else Some (Inr (), s1))"
  by (simp add: isIdWithinAllowlist_def split: option.splits sum.splits prod.splits)

lemma single_target:
  assumes cons: "consistent drive" and coh: "coherent drive s"
    and en: "enabled (allowlistState s)"
    and err: "\<not> (case error (allowlistState s) of None \<Rightarrow> False | Some e \<Rightarrow> truthy e)"
    and ne: "ids (allowlistState s) \<noteq> {}"
    and fin: "finite (ancestors drive t)"
  shows "\<exists>res s'. assertWriteAccessInternal drive [t] a label s = Some (res, s')
           \<and> coherent drive s'
           \<and> (\<exists>new. visited s' = visited s @ new \<and> distinct new)
           \<and> (\<forall>u. res = Inr u \<longrightarrow> within drive (resolved_ids drive s) {t})
           \<and> (\<forall>e. res = Inl e \<longrightarrow>
                 (\<exists>k err. drive k = Inl err
                     \<and> k \<in> set (drop (length (lookups s)) (lookups s')))
               \<or> (\<not> within drive (resolved_ids drive s) {t}
                   \<and> e = UserError (''Write blocked by allowlist: '' @ a
                          @ ''. The target '' @ label_text label @ '' ('' @ t
                          @ '') is not within a whitelisted file or folder.'')))"
proof -
  obtain g s1 where g: "ensureRootResolved drive s = (g, s1)" by force
  note er = ensureRootResolved_result [OF g coh cons]
  show ?thesis
  proof (cases g)
    case (Inl e)
    with er have "drive ''root'' = Inl (projl (drive ''root''))"
      "s1 = s\<lparr>lookups := lookups s @ [''root'']\<rparr>" by auto
    then show ?thesis using g Inl en err ne er
      by (auto simp: assertWriteAccessInternal_def)
  next
    case (Inr u)
    with er have c1: "coherent drive s1" and v1: "visited s1 = visited s"
      and i1: "ids (allowlistState s1) = resolved_ids drive s" by auto
    from isIdWithinAllowlist_returns [OF fin c1, of "ids (allowlistState s1)"]
    obtain r s' where run: "isIdWithinAllowlist_loop drive (ids (allowlistState s1)) [t] {} s1
                              = Some (r, s')"
      by (auto simp: isIdWithinAllowlist_def)
    have whole: "assertWriteAccessInternal drive [t] a label s
                   = assertWriteAccessInternal_loop drive [t] a label s1"
      using g Inr en err ne by (simp add: assertWriteAccessInternal_def)
    from loop_coherent [OF run cons c1] have c': "coherent drive s'" by simp
    from loop_visited [OF run] v1 have vis: "\<exists>new. visited s' = visited s @ new \<and> distinct new"
      by auto
    from loop_decides [OF run cons c1] i1
    have dec: "\<forall>b. r = Inr b \<longrightarrow> b = within drive (resolved_ids drive s) {t}"
      and bad: "\<forall>e. r = Inl e \<longrightarrow> (\<exists>k err. drive k = Inl err
                    \<and> k \<in> set (drop (length (lookups s1)) (lookups s')))"
      by auto
    from ensureRootResolved_orderly [OF g] obtain n1 where n1: "lookups s1 = lookups s @ n1"
      by (auto simp: orderly_def)
    from loop_orderly [OF run] obtain n2 where n2: "lookups s' = lookups s1 @ n2"
      by (auto simp: orderly_def)
    have drops: "set (drop (length (lookups s1)) (lookups s'))
                   \<subseteq> set (drop (length (lookups s)) (lookups s'))"
      using n1 n2 by auto
    show ?thesis
    proof (cases r)
      case (Inl e)
      with bad drops have lk: "\<exists>k err. drive k = Inl err
                    \<and> k \<in> set (drop (length (lookups s)) (lookups s'))" by blast
      have final: "assertWriteAccessInternal drive [t] a label s = Some (Inl e, s')"
        unfolding whole single_loop run Inl by simp
      show ?thesis using final c' vis lk by simp
    next
      case (Inr b)
      with dec have b: "b = within drive (resolved_ids drive s) {t}" by simp
      show ?thesis
      proof (cases b)
        case True
        have final: "assertWriteAccessInternal drive [t] a label s = Some (Inr (), s')"
          unfolding whole single_loop run Inr using True by simp
        show ?thesis using final c' vis b True by simp
      next
        case False
        have final: "assertWriteAccessInternal drive [t] a label s
           = Some (Inl (UserError (''Write blocked by allowlist: '' @ a
                          @ ''. The target '' @ label_text label @ '' ('' @ t
                          @ '') is not within a whitelisted file or folder.'')), s')"
          unfolding whole single_loop run Inr using False by simp
        show ?thesis using final c' vis b False by simp
      qed
    qed
  qed
qed


subsection \<open>The example stores\<close>

lemma coherent_initial: "coherent drive (initial st)"
  by (simp add: coherent_def initial_def)

lemma root_known_initial: "root_known drive (initial st)"
  by (simp add: root_known_def initial_def)

lemma consistent_drive_cycle: "consistent drive_cycle"
  by (auto simp: consistent_def drive_cycle_def FileNode_of_def or_else_def truthy_def
           split: if_splits)

lemma consistent_drive_tree: "consistent drive_tree"
  by (auto simp: consistent_def drive_tree_def FileNode_of_def or_else_def truthy_def
           split: if_splits)

lemma parents_drive_cycle:
  "(k, p) \<in> parent_rel drive_cycle \<longleftrightarrow> (k = ''A'' \<and> p = ''B'') \<or> (k = ''B'' \<and> p = ''A'')"
  by (auto simp: parent_rel_def drive_cycle_def FileNode_of_def split: if_splits)

lemma parents_drive_tree:
  "(k, p) \<in> parent_rel drive_tree \<longleftrightarrow> (k = ''A'' \<and> p = ''F1'') \<or> (k = ''F1'' \<and> p = ''R0'')"
  by (auto simp: parent_rel_def drive_tree_def FileNode_of_def split: if_splits)

lemma ancestors_drive_cycle: "ancestors drive_cycle ''A'' \<subseteq> {''A'', ''B''}"
  by (rule ancestors_subset) (auto simp: parents_drive_cycle)

lemma ancestors_drive_tree:
  "ancestors drive_tree ''A'' \<subseteq> {''A'', ''F1'', ''R0''}"
  "ancestors drive_tree ''Z'' \<subseteq> {''Z''}"
  "ancestors drive_tree ''R0'' \<subseteq> {''R0''}"
  by (rule ancestors_subset; auto simp: parents_drive_tree)+

subsection \<open>Termination and cycles\<close>

text \<open>
  Claim C5. On a store that is consistent, from a cache that agrees with it, and for a
  target with finitely many ancestors, however their parent links run, the assertion
  returns; the identifiers its search marked as seen are pairwise distinct; and when the
  allowlist is enabled and no ancestor of the target is accepted, it rejects.
\<close>

theorem search_returns_and_rejects:
  assumes "finite (ancestors drive fileId)" and "consistent drive" and "coherent drive s"
  shows "\<exists>res s'. assertWriteAccessForFile drive fileId a s = Some (res, s')
           \<and> (\<exists>new. visited s' = visited s @ new \<and> distinct new)
           \<and> (enabled (allowlistState s)
                \<and> \<not> (\<exists>k\<in>ancestors drive fileId. listed drive (resolved_ids drive s) k)
                \<longrightarrow> (\<exists>e. res = Inl e))"
proof (cases "\<not> enabled (allowlistState s)
              \<or> (case error (allowlistState s) of None \<Rightarrow> False | Some e \<Rightarrow> truthy e)
              \<or> ids (allowlistState s) = {}")
  case True
  then have "\<exists>res. assertWriteAccessForFile drive fileId a s = Some (res, s)
                 \<and> (enabled (allowlistState s) \<longrightarrow> (\<exists>e. res = Inl e))"
    by (auto simp: assertWriteAccessForFile_def assertWriteAccessInternal_def)
  then obtain res where "assertWriteAccessForFile drive fileId a s = Some (res, s)"
    "enabled (allowlistState s) \<longrightarrow> (\<exists>e. res = Inl e)" by blast
  moreover have "visited s = visited s @ [] \<and> distinct ([] :: string list)" by simp
  ultimately show ?thesis by blast
next
  case False
  then have en: "enabled (allowlistState s)"
    and err: "\<not> (case error (allowlistState s) of None \<Rightarrow> False | Some e \<Rightarrow> truthy e)"
    and ne: "ids (allowlistState s) \<noteq> {}" by auto
  from single_target [OF assms(2,3) en err ne assms(1), of a File_label]
  obtain res s' where run: "assertWriteAccessInternal drive [fileId] a File_label s = Some (res, s')"
    and vis: "\<exists>new. visited s' = visited s @ new \<and> distinct new"
    and ok: "\<forall>u. res = Inr u \<longrightarrow> within drive (resolved_ids drive s) {fileId}"
    by blast
  have "\<exists>e. res = Inl e"
    if "\<not> (\<exists>k\<in>ancestors drive fileId. listed drive (resolved_ids drive s) k)"
    using that ok by (cases res) (auto simp: within_def)
  with run vis show ?thesis by (simp add: assertWriteAccessForFile_def)
qed

theorem search_returns_and_rejects_witness:
  "finite (ancestors drive_cycle ''A'') \<and> consistent drive_cycle
   \<and> coherent drive_cycle (initial (allow {''F1''}))
   \<and> enabled (allowlistState (initial (allow {''F1''})))
   \<and> \<not> (\<exists>k\<in>ancestors drive_cycle ''A''.
            listed drive_cycle (resolved_ids drive_cycle (initial (allow {''F1''}))) k)
   \<and> assertWriteAccessForFile drive_cycle ''A'' ''trash'' (initial (allow {''F1''}))
       = Some (Inl (UserError (''Write blocked by allowlist: trash. The target file (A) ''
                                @ ''is not within a whitelisted file or folder.'')),
               (initial (allow {''F1''}))
                 \<lparr>parentCache := [''A'' \<mapsto> \<lparr>id_n = ''A'', parents = [''B'']\<rparr>,
                                   ''B'' \<mapsto> \<lparr>id_n = ''B'', parents = [''A'']\<rparr>],
                  lookups := [''A'', ''B''], visited := [''A'', ''B'']\<rparr>)"
proof -
  have f: "finite (ancestors drive_cycle ''A'')"
    using ancestors_drive_cycle by (rule finite_subset) simp
  have e: "enabled (allowlistState (initial (allow {''F1''})))"
    by (simp add: initial_def allow_def)
  have "resolved_ids drive_cycle (initial (allow {''F1''})) = {''F1''}"
    by (simp add: resolved_ids_def initial_def allow_def)
  then have n: "\<not> (\<exists>k\<in>ancestors drive_cycle ''A''.
            listed drive_cycle (resolved_ids drive_cycle (initial (allow {''F1''}))) k)"
    using ancestors_drive_cycle
    by (auto simp: listed_def drive_cycle_def FileNode_of_def or_else_def truthy_def)
  from search_returns_and_rejects
         [OF f consistent_drive_cycle coherent_initial [of drive_cycle "allow {''F1''}"],
          of "''trash''"] e n
  obtain res s' where "assertWriteAccessForFile drive_cycle ''A'' ''trash''
                         (initial (allow {''F1''})) = Some (res, s')" "\<exists>e. res = Inl e"
    by blast
  moreover have "assertWriteAccessForFile drive_cycle ''A'' ''trash'' (initial (allow {''F1''}))
       = Some (Inl (UserError (''Write blocked by allowlist: trash. The target file (A) ''
                                @ ''is not within a whitelisted file or folder.'')),
               (initial (allow {''F1''}))
                 \<lparr>parentCache := [''A'' \<mapsto> \<lparr>id_n = ''A'', parents = [''B'']\<rparr>,
                                   ''B'' \<mapsto> \<lparr>id_n = ''B'', parents = [''A'']\<rparr>],
                  lookups := [''A'', ''B''], visited := [''A'', ''B'']\<rparr>)"
    by (simp add: run_defs drive_cycle_def)
  ultimately show ?thesis using f consistent_drive_cycle coherent_initial e n by simp
qed


subsection \<open>When a file may be written\<close>

text \<open>
  Claim C1, as amended. With the allowlist enabled, no configuration error, a non-empty
  set of identifiers, a consistent store, a cache that agrees with it and a target with
  finitely many ancestors, the assertion for a file returns; and when every identifier it
  asked the store for was answered, it succeeds exactly when some ancestor of the target,
  the target included, is accepted: the ancestor, or the identifier the store answers for
  it, is in the set of identifiers as it is once the root is resolved. Otherwise it rejects
  with the message that the target is not within a whitelisted file or folder.
\<close>

theorem file_allowed_iff_within:
  assumes "consistent drive" and "coherent drive s"
    and "enabled (allowlistState s)" and "error (allowlistState s) = None"
    and "ids (allowlistState s) \<noteq> {}"
    and "finite (ancestors drive fileId)"
  shows "\<exists>res s'. assertWriteAccessForFile drive fileId a s = Some (res, s')
           \<and> ((\<forall>k\<in>set (drop (length (lookups s)) (lookups s')). \<exists>r. drive k = Inr r) \<longrightarrow>
                (res = Inr ()
                   \<longleftrightarrow> (\<exists>k\<in>ancestors drive fileId. listed drive (resolved_ids drive s) k))
              \<and> (res \<noteq> Inr () \<longrightarrow>
                   res = Inl (UserError (''Write blocked by allowlist: '' @ a
                          @ ''. The target file ('' @ fileId
                          @ '') is not within a whitelisted file or folder.''))))"
proof -
  have err: "\<not> (case error (allowlistState s) of None \<Rightarrow> False | Some e \<Rightarrow> truthy e)"
    using assms(4) by simp
  from single_target [OF assms(1,2,3) err assms(5,6), of a File_label]
  obtain res s' where run: "assertWriteAccessInternal drive [fileId] a File_label s = Some (res, s')"
    and ok: "\<forall>u. res = Inr u \<longrightarrow> within drive (resolved_ids drive s) {fileId}"
    and bad: "\<forall>e. res = Inl e \<longrightarrow>
                 (\<exists>k err. drive k = Inl err
                     \<and> k \<in> set (drop (length (lookups s)) (lookups s')))
               \<or> (\<not> within drive (resolved_ids drive s) {fileId}
                   \<and> e = UserError (''Write blocked by allowlist: '' @ a
                          @ ''. The target '' @ label_text File_label @ '' ('' @ fileId
                          @ '') is not within a whitelisted file or folder.''))"
    by blast
  have w: "within drive (resolved_ids drive s) {fileId}
             = (\<exists>k\<in>ancestors drive fileId. listed drive (resolved_ids drive s) k)"
    by (simp add: within_def)
  have "(res = Inr ()
           \<longleftrightarrow> (\<exists>k\<in>ancestors drive fileId. listed drive (resolved_ids drive s) k))
      \<and> (res \<noteq> Inr () \<longrightarrow>
           res = Inl (UserError (''Write blocked by allowlist: '' @ a
                  @ ''. The target file ('' @ fileId
                  @ '') is not within a whitelisted file or folder.'')))"
    if answered: "\<forall>k\<in>set (drop (length (lookups s)) (lookups s')). \<exists>r. drive k = Inr r"
  proof (cases res)
    case (Inr u)
    with ok w show ?thesis by simp
  next
    case (Inl e)
    have "\<not> (\<exists>k err. drive k = Inl err
                 \<and> k \<in> set (drop (length (lookups s)) (lookups s')))"
      using answered by fastforce
    with bad Inl have "\<not> within drive (resolved_ids drive s) {fileId}"
      and "e = UserError (''Write blocked by allowlist: '' @ a
                          @ ''. The target '' @ label_text File_label @ '' ('' @ fileId
                          @ '') is not within a whitelisted file or folder.'')"
      by blast+
    with Inl w show ?thesis by simp
  qed
  with run show ?thesis by (simp add: assertWriteAccessForFile_def)
qed

theorem file_allowed_iff_within_witness:
  "consistent drive_tree \<and> coherent drive_tree (initial (allow {''F1''}))
   \<and> finite (ancestors drive_tree ''A'')
   \<and> assertWriteAccessForFile drive_tree ''A'' ''rename'' (initial (allow {''F1''}))
       = Some (Inr (),
               (initial (allow {''F1''}))
                 \<lparr>parentCache := [''A'' \<mapsto> \<lparr>id_n = ''A'', parents = [''F1'']\<rparr>],
                  lookups := [''A''], visited := [''A'', ''F1'']\<rparr>)
   \<and> (\<exists>k\<in>ancestors drive_tree ''A''.
         listed drive_tree (resolved_ids drive_tree (initial (allow {''F1''}))) k)"
proof -
  have f: "finite (ancestors drive_tree ''A'')"
    using ancestors_drive_tree(1) by (rule finite_subset) simp
  have st: "enabled (allowlistState (initial (allow {''F1''})))"
    "error (allowlistState (initial (allow {''F1''}))) = None"
    "ids (allowlistState (initial (allow {''F1''}))) \<noteq> {}"
    "lookups (initial (allow {''F1''})) = []"
    by (simp_all add: initial_def allow_def)
  have run: "assertWriteAccessForFile drive_tree ''A'' ''rename'' (initial (allow {''F1''}))
       = Some (Inr (),
               (initial (allow {''F1''}))
                 \<lparr>parentCache := [''A'' \<mapsto> \<lparr>id_n = ''A'', parents = [''F1'']\<rparr>],
                  lookups := [''A''], visited := [''A'', ''F1'']\<rparr>)"
    by (simp add: run_defs drive_tree_def)
  have a: "\<exists>r. drive_tree ''A'' = Inr r" by (simp add: drive_tree_def)
  from file_allowed_iff_within
         [OF consistent_drive_tree coherent_initial [of drive_tree "allow {''F1''}"] st(1,2,3) f,
          of "''rename''"] run st(4) a
  have "\<exists>k\<in>ancestors drive_tree ''A''.
         listed drive_tree (resolved_ids drive_tree (initial (allow {''F1''}))) k"
    by simp
  with f run consistent_drive_tree coherent_initial show ?thesis by simp
qed

text \<open>
  The claim as the specification words it, with the set as configured and an ancestor
  that is itself in the set, fails for the root: the set holds the alias only, the target
  is the identifier the store answers for the alias, and the assertion succeeds.
\<close>

theorem file_allowed_iff_ancestor_in_set_counterexample:
  "map_option fst
     (assertWriteAccessForFile drive_tree ''R0'' ''rename'' (initial (allow {''root''})))
     = Some (Inr ())
   \<and> ancestors drive_tree ''R0'' \<inter> ids (allowlistState (initial (allow {''root''}))) = {}"
proof -
  have "map_option fst
     (assertWriteAccessForFile drive_tree ''R0'' ''rename'' (initial (allow {''root''})))
     = Some (Inr ())"
    by (simp add: run_defs drive_tree_def)
  moreover have "ancestors drive_tree ''R0'' \<inter> ids (allowlistState (initial (allow {''root''}))) = {}"
    using ancestors_drive_tree(3) by (auto simp: initial_def allow_def)
  ultimately show ?thesis by simp
qed

subsection \<open>The root and its alias\<close>

lemma getFileNode_answer_state:
  assumes "coherent drive s" and "drive k = Inr r"
  shows "\<exists>s'. getFileNode drive k s = (Inr (FileNode_of k r), s')
            \<and> allowlistState s' = allowlistState s \<and> rootResolved s' = rootResolved s
            \<and> visited s' = visited s
            \<and> lookups s' = lookups s @ (if parentCache s k = None then [k] else [])"
proof (cases "parentCache s k")
  case None
  then show ?thesis using assms(2) by (simp add: getFileNode_fetch)
next
  case (Some n)
  with assms(1) obtain r' where "drive k = Inr r'" "n = FileNode_of k r'"
    unfolding coherent_def by blast
  with assms(2) have "n = FileNode_of k r" by simp
  with Some show ?thesis by (simp add: getFileNode_hit)
qed

lemma ensureRootResolved_normalizes:
  assumes "coherent drive s" and "root_known drive s"
    and "''root'' \<in> ids (allowlistState s)" and "drive ''root'' = Inr r"
  shows "\<exists>s1. ensureRootResolved drive s = (Inr (), s1)
            \<and> ids (allowlistState s1)
                = insert (id_n (FileNode_of ''root'' r)) (ids (allowlistState s))
            \<and> rootResolved s1
            \<and> enabled (allowlistState s1) = enabled (allowlistState s)
            \<and> error (allowlistState s1) = error (allowlistState s)
            \<and> visited s1 = visited s
            \<and> lookups s1 = lookups s
                 @ (if \<not> rootResolved s \<and> parentCache s ''root'' = None then [''root'']
                    else [])"
proof (cases "rootResolved s")
  case True
  with assms(2,4) have "id_n (FileNode_of ''root'' r) \<in> ids (allowlistState s)"
    by (auto simp: root_known_def)
  then have "insert (id_n (FileNode_of ''root'' r)) (ids (allowlistState s))
               = ids (allowlistState s)" by auto
  with True show ?thesis by (simp add: ensureRootResolved_def)
next
  case False
  from getFileNode_answer_state [OF assms(1,4)] obtain s0
    where g: "getFileNode drive ''root'' s = (Inr (FileNode_of ''root'' r), s0)"
      and fr: "allowlistState s0 = allowlistState s" "visited s0 = visited s"
        "lookups s0 = lookups s @ (if parentCache s ''root'' = None then [''root''] else [])"
    by blast
  show ?thesis
  proof (cases "id_n (FileNode_of ''root'' r) = ''root''")
    case True
    with assms(3) have "insert (id_n (FileNode_of ''root'' r)) (ids (allowlistState s))
               = ids (allowlistState s)" by auto
    then show ?thesis using True False assms(3) g fr by (simp add: ensureRootResolved_def)
  next
    case diff: False
    with id_n_differs_truthy [of "''root''" r] have "truthy (id_n (FileNode_of ''root'' r))"
      by simp
    with diff show ?thesis using False assms(3) g fr by (simp add: ensureRootResolved_def)
  qed
qed

lemma allowed_at_once:
  assumes "enabled (allowlistState s)" and "error (allowlistState s) = None"
    and "ensureRootResolved drive s = (Inr (), s1)"
    and "t \<in> ids (allowlistState s1)" and "t \<noteq> []"
  shows "assertWriteAccessInternal drive [t] a label s
           = Some (Inr (), s1\<lparr>visited := visited s1 @ [t]\<rparr>)"
proof -
  have "ids (allowlistState s) \<noteq> {}"
    using assms(3,4) by (auto simp: ensureRootResolved_def Let_def
                              dest: getFileNode_frame split: if_splits prod.splits sum.splits)
  moreover have "isIdWithinAllowlist_loop drive (ids (allowlistState s1)) [t] {} s1
                   = Some (Inr True, s1\<lparr>visited := visited s1 @ [t]\<rparr>)"
    using assms(4,5) by (subst isIdWithinAllowlist_loop.simps) (simp add: truthy_def)
  ultimately show ?thesis
    using assms(1,2,3) by (simp add: assertWriteAccessInternal_def isIdWithinAllowlist_def)
qed

text \<open>
  Claim C6. With the allowlist enabled, no configuration error and the literal \<open>root\<close>
  in the set of identifiers, and with the store answering for \<open>root\<close>, the assertion for
  an absent parent succeeds, and so does the assertion for the file whose identifier is
  the one the store answers for \<open>root\<close>. Either call leaves the set of identifiers as
  it was with that identifier added and the root marked as resolved; it asks the store
  for \<open>root\<close> once, and only when the root was not yet resolved and not in the cache.
\<close>

theorem root_alias_equivalence:
  assumes "coherent drive s" and "root_known drive s"
    and "enabled (allowlistState s)" and "error (allowlistState s) = None"
    and "''root'' \<in> ids (allowlistState s)" and "drive ''root'' = Inr r"
  shows "(\<exists>s'. assertWriteAccessForParent drive None a s = Some (Inr (), s')
            \<and> ids (allowlistState s')
                = insert (id_n (FileNode_of ''root'' r)) (ids (allowlistState s))
            \<and> rootResolved s'
            \<and> lookups s' = lookups s
                 @ (if \<not> rootResolved s \<and> parentCache s ''root'' = None then [''root'']
                    else [])
            \<and> visited s' = visited s @ [''root''])
       \<and> (\<exists>s'. assertWriteAccessForFile drive (id_n (FileNode_of ''root'' r)) a s
                  = Some (Inr (), s')
            \<and> ids (allowlistState s')
                = insert (id_n (FileNode_of ''root'' r)) (ids (allowlistState s))
            \<and> rootResolved s'
            \<and> lookups s' = lookups s
                 @ (if \<not> rootResolved s \<and> parentCache s ''root'' = None then [''root'']
                    else [])
            \<and> visited s' = visited s @ [id_n (FileNode_of ''root'' r)])"
proof -
  from ensureRootResolved_normalizes [OF assms(1,2,5,6)] obtain s1
    where e: "ensureRootResolved drive s = (Inr (), s1)"
      and i: "ids (allowlistState s1)
                = insert (id_n (FileNode_of ''root'' r)) (ids (allowlistState s))"
      and f: "rootResolved s1" "visited s1 = visited s"
        "lookups s1 = lookups s
           @ (if \<not> rootResolved s \<and> parentCache s ''root'' = None then [''root''] else [])"
    by blast
  have m: "''root'' \<in> ids (allowlistState s1)"
    "id_n (FileNode_of ''root'' r) \<in> ids (allowlistState s1)"
    using i assms(5) by simp_all
  have ne: "id_n (FileNode_of ''root'' r) \<noteq> []"
    using id_n_differs_truthy [of "''root''" r] by (auto simp: truthy_def)
  have p: "assertWriteAccessForParent drive None a s
             = Some (Inr (), s1\<lparr>visited := visited s1 @ [''root'']\<rparr>)"
    using allowed_at_once [OF assms(3,4) e m(1)]
    by (simp add: assertWriteAccessForParent_def)
  have q: "assertWriteAccessForFile drive (id_n (FileNode_of ''root'' r)) a s
             = Some (Inr (), s1\<lparr>visited := visited s1 @ [id_n (FileNode_of ''root'' r)]\<rparr>)"
    using allowed_at_once [OF assms(3,4) e m(2) ne]
    by (simp add: assertWriteAccessForFile_def)
  show ?thesis unfolding p q using i f by simp
qed

theorem root_alias_equivalence_witness:
  "coherent drive_tree (initial (allow {''root''}))
   \<and> root_known drive_tree (initial (allow {''root''}))
   \<and> drive_tree ''root'' = Inr \<lparr>data_id = Some ''R0'', data_parents = None\<rparr>
   \<and> assertWriteAccessForParent drive_tree None ''create'' (initial (allow {''root''}))
       = Some (Inr (),
               \<lparr>allowlistState = (allow {''root''})\<lparr>ids := {''R0'', ''root''}\<rparr>,
                parentCache = [''root'' \<mapsto> \<lparr>id_n = ''R0'', parents = []\<rparr>,
                               ''R0'' \<mapsto> \<lparr>id_n = ''R0'', parents = []\<rparr>],
                rootResolved = True, lookups = [''root''], visited = [''root'']\<rparr>)
   \<and> assertWriteAccessForFile drive_tree ''R0'' ''create'' (initial (allow {''root''}))
       = Some (Inr (),
               \<lparr>allowlistState = (allow {''root''})\<lparr>ids := {''R0'', ''root''}\<rparr>,
                parentCache = [''root'' \<mapsto> \<lparr>id_n = ''R0'', parents = []\<rparr>,
                               ''R0'' \<mapsto> \<lparr>id_n = ''R0'', parents = []\<rparr>],
                rootResolved = True, lookups = [''root''], visited = [''R0'']\<rparr>)
   \<and> (\<exists>s'. assertWriteAccessForFile drive_tree ''R0'' ''create'' (initial (allow {''root''}))
               = Some (Inr (), s')
            \<and> ids (allowlistState s') = {''R0'', ''root''} \<and> rootResolved s'
            \<and> lookups s' = [''root''])"
proof -
  have st: "enabled (allowlistState (initial (allow {''root''})))"
    "error (allowlistState (initial (allow {''root''}))) = None"
    "''root'' \<in> ids (allowlistState (initial (allow {''root''})))"
    by (simp_all add: initial_def allow_def)
  have d: "drive_tree ''root'' = Inr \<lparr>data_id = Some ''R0'', data_parents = None\<rparr>"
    by (simp add: drive_tree_def)
  have c: "id_n (FileNode_of ''root'' \<lparr>data_id = Some ''R0'', data_parents = None\<rparr>) = ''R0''"
    by (simp add: FileNode_of_def or_else_def truthy_def)
  have i: "ids (allowlistState (initial (allow {''root''}))) = {''root''}"
    "lookups (initial (allow {''root''})) = []"
    "rootResolved (initial (allow {''root''})) = False"
    "parentCache (initial (allow {''root''})) ''root'' = None"
    by (simp_all add: initial_def allow_def)
  from root_alias_equivalence
         [OF coherent_initial [of drive_tree "allow {''root''}"]
             root_known_initial [of drive_tree "allow {''root''}"] st d, of "''create''"]
  have t: "\<exists>s'. assertWriteAccessForFile drive_tree ''R0'' ''create'' (initial (allow {''root''}))
               = Some (Inr (), s')
            \<and> ids (allowlistState s') = {''R0'', ''root''} \<and> rootResolved s'
            \<and> lookups s' = [''root'']"
    unfolding c i by auto
  have p: "assertWriteAccessForParent drive_tree None ''create'' (initial (allow {''root''}))
       = Some (Inr (),
               \<lparr>allowlistState = (allow {''root''})\<lparr>ids := {''R0'', ''root''}\<rparr>,
                parentCache = [''root'' \<mapsto> \<lparr>id_n = ''R0'', parents = []\<rparr>,
                               ''R0'' \<mapsto> \<lparr>id_n = ''R0'', parents = []\<rparr>],
                rootResolved = True, lookups = [''root''], visited = [''root'']\<rparr>)"
    by (simp add: run_defs drive_tree_def)
  have q: "assertWriteAccessForFile drive_tree ''R0'' ''create'' (initial (allow {''root''}))
       = Some (Inr (),
               \<lparr>allowlistState = (allow {''root''})\<lparr>ids := {''R0'', ''root''}\<rparr>,
                parentCache = [''root'' \<mapsto> \<lparr>id_n = ''R0'', parents = []\<rparr>,
                               ''R0'' \<mapsto> \<lparr>id_n = ''R0'', parents = []\<rparr>],
                rootResolved = True, lookups = [''root''], visited = [''R0'']\<rparr>)"
    by (simp add: run_defs drive_tree_def)
  from t p q d show ?thesis
    using coherent_initial [of drive_tree "allow {''root''}"]
      root_known_initial [of drive_tree "allow {''root''}"]
    by (intro conjI)
qed


subsection \<open>Asking a second time\<close>

lemma map_le_at: "m \<subseteq>\<^sub>m m' \<Longrightarrow> m k = Some v \<Longrightarrow> m' k = Some v"
  by (metis domI map_le_def)

text \<open>
  A search that has returned, run again from any state whose cache holds what the first
  run left, returns the same; it changes neither the cache nor the allowlist, and asks
  the store only for what the store fails for.
\<close>

lemma loop_replay:
  assumes "isIdWithinAllowlist_loop drive allowlistIds queue seen s = Some y"
    and cons: "consistent drive"
  shows "coherent drive s \<Longrightarrow>
         \<forall>t. coherent drive t \<longrightarrow> parentCache (snd y) \<subseteq>\<^sub>m parentCache t \<longrightarrow>
           (\<exists>t' new. isIdWithinAllowlist_loop drive allowlistIds queue seen t = Some (fst y, t')
               \<and> parentCache t' = parentCache t \<and> allowlistState t' = allowlistState t
               \<and> rootResolved t' = rootResolved t \<and> lookups t' = lookups t @ new
               \<and> (\<forall>k\<in>set new. \<exists>err. drive k = Inl err))"
  using assms(1)
proof (induction rule: loop_induct)
  case (Empty seen s)
  show ?case by (subst isIdWithinAllowlist_loop.simps) simp
next
  case (Skip currentId rest seen s y)
  from Skip(3) [OF Skip(4)] Skip(1) show ?case
    by (subst isIdWithinAllowlist_loop.simps) simp
next
  case (Hit currentId rest seen s)
  then show ?case by (subst isIdWithinAllowlist_loop.simps) simp
next
  case (Fail currentId rest seen s e s1)
  from Fail(5) have c0: "coherent drive (s\<lparr>visited := visited s @ [currentId]\<rparr>)" by simp
  from getFileNode_coherent [OF Fail(4) cons c0]
  obtain err where err: "drive currentId = Inl err" "e = getFileNode_catch err currentId"
    by auto
  show ?case
  proof (intro allI impI)
    fix t assume t: "coherent drive t" "parentCache (snd (Inl e, s1)) \<subseteq>\<^sub>m parentCache t"
    let ?t0 = "t\<lparr>visited := visited t @ [currentId]\<rparr>"
    have "parentCache t currentId = None"
    proof (cases "parentCache t currentId")
      case (Some n)
      with t(1) obtain r where "drive currentId = Inr r" unfolding coherent_def by blast
      with err(1) show ?thesis by simp
    qed simp
    then have "getFileNode drive currentId ?t0
                 = (Inl e, ?t0\<lparr>lookups := lookups ?t0 @ [currentId]\<rparr>)"
      using err by (simp add: getFileNode_fail)
    then have "isIdWithinAllowlist_loop drive allowlistIds (currentId # rest) seen t
                 = Some (Inl e, ?t0\<lparr>lookups := lookups ?t0 @ [currentId]\<rparr>)"
      using Fail(1,2,3) by (subst isIdWithinAllowlist_loop.simps) simp
    then show "\<exists>t' new. isIdWithinAllowlist_loop drive allowlistIds (currentId # rest) seen t
                 = Some (fst (Inl e, s1), t')
               \<and> parentCache t' = parentCache t \<and> allowlistState t' = allowlistState t
               \<and> rootResolved t' = rootResolved t \<and> lookups t' = lookups t @ new
               \<and> (\<forall>k\<in>set new. \<exists>err. drive k = Inl err)"
      using err(1) by (intro exI [of _ "?t0\<lparr>lookups := lookups ?t0 @ [currentId]\<rparr>"]
                            exI [of _ "[currentId]"]) simp
  qed
next
  case (Found currentId rest seen s node s1)
  from Found(6) have c0: "coherent drive (s\<lparr>visited := visited s @ [currentId]\<rparr>)" by simp
  from getFileNode_coherent [OF Found(4) cons c0]
  have n: "parentCache s1 currentId = Some node" by auto
  show ?case
  proof (intro allI impI)
    fix t assume t: "coherent drive t" "parentCache (snd (Inr True, s1)) \<subseteq>\<^sub>m parentCache t"
    let ?t0 = "t\<lparr>visited := visited t @ [currentId]\<rparr>"
    from t(2) n have "parentCache ?t0 currentId = Some node" by (simp add: map_le_at)
    then have "getFileNode drive currentId ?t0 = (Inr node, ?t0)" by (rule getFileNode_hit)
    then have "isIdWithinAllowlist_loop drive allowlistIds (currentId # rest) seen t
                 = Some (Inr True, ?t0)"
      using Found(1,2,3,5) by (subst isIdWithinAllowlist_loop.simps) simp
    then show "\<exists>t' new. isIdWithinAllowlist_loop drive allowlistIds (currentId # rest) seen t
                 = Some (fst (Inr True, s1), t')
               \<and> parentCache t' = parentCache t \<and> allowlistState t' = allowlistState t
               \<and> rootResolved t' = rootResolved t \<and> lookups t' = lookups t @ new
               \<and> (\<forall>k\<in>set new. \<exists>err. drive k = Inl err)"
      by (intro exI [of _ ?t0] exI [of _ "[]"]) simp
  qed
next
  case (Step currentId rest seen s node s1 y)
  let ?q = "rest @ filter (\<lambda>parentId. parentId \<notin> insert currentId seen) (parents node)"
  from Step(8) have c0: "coherent drive (s\<lparr>visited := visited s @ [currentId]\<rparr>)" by simp
  from getFileNode_coherent [OF Step(4) cons c0]
  have n: "parentCache s1 currentId = Some node" and c1: "coherent drive s1" by auto
  from loop_coherent [OF Step(6) cons c1] have le: "parentCache s1 \<subseteq>\<^sub>m parentCache (snd y)"
    by simp
  note IH = Step(7) [OF c1, rule_format]
  show ?case
  proof (intro allI impI)
    fix t assume t: "coherent drive t" "parentCache (snd y) \<subseteq>\<^sub>m parentCache t"
    let ?t0 = "t\<lparr>visited := visited t @ [currentId]\<rparr>"
    from le t(2) n have "parentCache ?t0 currentId = Some node" by (simp add: map_le_at)
    then have g: "getFileNode drive currentId ?t0 = (Inr node, ?t0)" by (rule getFileNode_hit)
    from t have "coherent drive ?t0" "parentCache (snd y) \<subseteq>\<^sub>m parentCache ?t0" by simp_all
    from IH [OF this] obtain t' new
      where r: "isIdWithinAllowlist_loop drive allowlistIds ?q (insert currentId seen) ?t0
                  = Some (fst y, t')"
        and f: "parentCache t' = parentCache ?t0" "allowlistState t' = allowlistState ?t0"
          "rootResolved t' = rootResolved ?t0" "lookups t' = lookups ?t0 @ new"
          "\<forall>k\<in>set new. \<exists>err. drive k = Inl err" by blast
    have "isIdWithinAllowlist_loop drive allowlistIds (currentId # rest) seen t = Some (fst y, t')"
      using Step(1,2,3,5) g r by (subst isIdWithinAllowlist_loop.simps) simp
    with f show "\<exists>t' new. isIdWithinAllowlist_loop drive allowlistIds (currentId # rest) seen t
                 = Some (fst y, t')
               \<and> parentCache t' = parentCache t \<and> allowlistState t' = allowlistState t
               \<and> rootResolved t' = rootResolved t \<and> lookups t' = lookups t @ new
               \<and> (\<forall>k\<in>set new. \<exists>err. drive k = Inl err)"
      by (intro exI [of _ t'] exI [of _ new]) simp
  qed
qed

lemma coherent_same_cache:
  "parentCache t = parentCache s \<Longrightarrow> coherent drive t = coherent drive s"
  by (simp add: coherent_def)

lemma internal_loop_coherent:
  assumes cons: "consistent drive"
  shows "assertWriteAccessInternal_loop drive targetIds a label s = Some (res, s') \<Longrightarrow>
         coherent drive s \<Longrightarrow>
         coherent drive s' \<and> parentCache s \<subseteq>\<^sub>m parentCache s'
       \<and> allowlistState s' = allowlistState s \<and> rootResolved s' = rootResolved s"
proof (induction targetIds arbitrary: s)
  case Nil
  then show ?case by simp
next
  case (Cons targetId rest)
  from Cons.prems(1) obtain r1 s1
    where run: "isIdWithinAllowlist_loop drive (ids (allowlistState s)) [targetId] {} s
                  = Some (r1, s1)"
    by (auto simp: isIdWithinAllowlist_def split: option.splits)
  from loop_coherent [OF run cons Cons.prems(2)] loop_frame [OF run]
  have one: "coherent drive s1" "parentCache s \<subseteq>\<^sub>m parentCache s1"
    "allowlistState s1 = allowlistState s" "rootResolved s1 = rootResolved s" by simp_all
  show ?case
  proof (cases "r1 = Inr True")
    case True
    then have "assertWriteAccessInternal_loop drive rest a label s1 = Some (res, s')"
      using Cons.prems(1) run by (simp add: isIdWithinAllowlist_def)
    from Cons.IH [OF this one(1)] one show ?thesis by (auto intro: map_le_trans)
  next
    case False
    then have "s' = s1"
      using Cons.prems(1) run
      by (cases r1) (auto simp: isIdWithinAllowlist_def split: if_splits)
    with one show ?thesis by simp
  qed
qed

lemma internal_loop_replay:
  assumes cons: "consistent drive"
  shows "assertWriteAccessInternal_loop drive targetIds a label s = Some (res, s') \<Longrightarrow>
         coherent drive s \<Longrightarrow> coherent drive t \<Longrightarrow> parentCache s' \<subseteq>\<^sub>m parentCache t \<Longrightarrow>
         allowlistState t = allowlistState s \<Longrightarrow>
         \<exists>t' new. assertWriteAccessInternal_loop drive targetIds a label t = Some (res, t')
            \<and> parentCache t' = parentCache t \<and> allowlistState t' = allowlistState t
            \<and> rootResolved t' = rootResolved t \<and> lookups t' = lookups t @ new
            \<and> (\<forall>k\<in>set new. \<exists>err. drive k = Inl err)"
proof (induction targetIds arbitrary: s t)
  case Nil
  then show ?case by simp
next
  case (Cons targetId rest)
  from Cons.prems(1) obtain r1 s1
    where run: "isIdWithinAllowlist_loop drive (ids (allowlistState s)) [targetId] {} s
                  = Some (r1, s1)"
    by (auto simp: isIdWithinAllowlist_def split: option.splits)
  from loop_coherent [OF run cons Cons.prems(2)] loop_frame [OF run]
  have one: "coherent drive s1" "allowlistState s1 = allowlistState s" by simp_all
  have le1: "parentCache s1 \<subseteq>\<^sub>m parentCache t"
  proof (cases "r1 = Inr True")
    case True
    then have "assertWriteAccessInternal_loop drive rest a label s1 = Some (res, s')"
      using Cons.prems(1) run by (simp add: isIdWithinAllowlist_def)
    from internal_loop_coherent [OF cons this one(1)] Cons.prems(4) show ?thesis
      by (auto intro: map_le_trans)
  next
    case False
    then have "s' = s1"
      using Cons.prems(1) run
      by (cases r1) (auto simp: isIdWithinAllowlist_def split: if_splits)
    with Cons.prems(4) show ?thesis by simp
  qed
  from loop_replay [OF run cons Cons.prems(2), rule_format, of t] Cons.prems(3) le1
  obtain t1 n1
    where again: "isIdWithinAllowlist_loop drive (ids (allowlistState s)) [targetId] {} t
                    = Some (r1, t1)"
      and f1: "parentCache t1 = parentCache t" "allowlistState t1 = allowlistState t"
        "rootResolved t1 = rootResolved t" "lookups t1 = lookups t @ n1"
        "\<forall>k\<in>set n1. \<exists>err. drive k = Inl err" by auto
  have again': "isIdWithinAllowlist drive targetId (ids (allowlistState t)) t = Some (r1, t1)"
    using again Cons.prems(5) by (simp add: isIdWithinAllowlist_def)
  have run': "isIdWithinAllowlist drive targetId (ids (allowlistState s)) s = Some (r1, s1)"
    using run by (simp add: isIdWithinAllowlist_def)
  show ?case
  proof (cases "r1 = Inr True")
    case True
    then have rest: "assertWriteAccessInternal_loop drive rest a label s1 = Some (res, s')"
      using Cons.prems(1) run' by simp
    have c1: "coherent drive t1"
      using coherent_same_cache [OF f1(1), of drive] Cons.prems(3) by simp
    have a1: "allowlistState t1 = allowlistState s1" using f1(2) one(2) Cons.prems(5) by simp
    have l1: "parentCache s' \<subseteq>\<^sub>m parentCache t1" using f1(1) Cons.prems(4) by simp
    from Cons.IH [OF rest one(1) c1 l1 a1] obtain t' n2
      where r2: "assertWriteAccessInternal_loop drive rest a label t1 = Some (res, t')"
        and f2: "parentCache t' = parentCache t1" "allowlistState t' = allowlistState t1"
          "rootResolved t' = rootResolved t1" "lookups t' = lookups t1 @ n2"
          "\<forall>k\<in>set n2. \<exists>err. drive k = Inl err" by blast
    have "assertWriteAccessInternal_loop drive (targetId # rest) a label t = Some (res, t')"
      using again' True r2 by simp
    with f1 f2 show ?thesis
      by (intro exI [of _ t'] exI [of _ "n1 @ n2"]) auto
  next
    case False
    have "assertWriteAccessInternal_loop drive (targetId # rest) a label t
            = (case r1 of Inl e \<Rightarrow> Some (Inl e, t1)
               | Inr b \<Rightarrow> Some (Inl (UserError (''Write blocked by allowlist: '' @ a
                        @ ''. The target '' @ label_text label @ '' ('' @ targetId
                        @ '') is not within a whitelisted file or folder.'')), t1))"
      using again' False by (cases r1) auto
    moreover have "Some (res, s')
            = (case r1 of Inl e \<Rightarrow> Some (Inl e, s1)
               | Inr b \<Rightarrow> Some (Inl (UserError (''Write blocked by allowlist: '' @ a
                        @ ''. The target '' @ label_text label @ '' ('' @ targetId
                        @ '') is not within a whitelisted file or folder.'')), s1))"
      using Cons.prems(1) run' False by (cases r1) auto
    ultimately have "assertWriteAccessInternal_loop drive (targetId # rest) a label t
                       = Some (res, t1)"
      by (cases r1) auto
    with f1 show ?thesis by (intro exI [of _ t1] exI [of _ n1]) simp
  qed
qed


lemma ensureRootResolved_again:
  assumes "rootResolved s \<or> ''root'' \<notin> ids (allowlistState s)"
  shows "ensureRootResolved drive s = (Inr (), s)"
  using assms by (simp add: ensureRootResolved_def)

lemma resolved_ids_superset: "ids (allowlistState s) \<subseteq> resolved_ids drive s"
  by (auto simp: resolved_ids_def split: sum.splits)

text \<open>
  Claim C7, as amended. On a consistent store, from a cache that agrees with it, an
  assertion that has returned returns the same when it is called again with the same
  arguments; the second call leaves the cache as it is, and the only identifiers it asks
  the store for are ones the store fails for, which no call caches.
\<close>

theorem second_call_agrees:
  assumes cons: "consistent drive" and coh: "coherent drive s"
    and first: "assertWriteAccessInternal drive targetIds a label s = Some (res, s')"
  shows "\<exists>s'' new. assertWriteAccessInternal drive targetIds a label s' = Some (res, s'')
           \<and> parentCache s'' = parentCache s' \<and> lookups s'' = lookups s' @ new
           \<and> (\<forall>k\<in>set new. \<exists>err. drive k = Inl err)"
proof (cases "\<not> enabled (allowlistState s)
              \<or> (case error (allowlistState s) of None \<Rightarrow> False | Some e \<Rightarrow> truthy e)
              \<or> ids (allowlistState s) = {}")
  case True
  then have "s' = s" using first by (auto simp: assertWriteAccessInternal_def split: if_splits)
  with first show ?thesis by (intro exI [of _ s] exI [of _ "[]"]) simp
next
  case False
  then have en: "enabled (allowlistState s)"
    and err: "\<not> (case error (allowlistState s) of None \<Rightarrow> False | Some e \<Rightarrow> truthy e)"
    and ne: "ids (allowlistState s) \<noteq> {}" by auto
  obtain g s1 where g: "ensureRootResolved drive s = (g, s1)" by force
  note er = ensureRootResolved_result [OF g coh cons]
  show ?thesis
  proof (cases g)
    case (Inl e)
    with er obtain x where x: "drive ''root'' = Inl x" "e = getFileNode_catch x ''root''"
      and s1: "s1 = s\<lparr>lookups := lookups s @ [''root'']\<rparr>"
      and nr: "\<not> rootResolved s" "''root'' \<in> ids (allowlistState s)" by auto
    have r: "res = Inl e" "s' = s1"
      using first g Inl en err ne by (auto simp: assertWriteAccessInternal_def)
    have "parentCache s' ''root'' = None"
    proof (cases "parentCache s ''root''")
      case (Some n)
      with coh obtain r where "drive ''root'' = Inr r" unfolding coherent_def by blast
      with x(1) show ?thesis by simp
    next
      case None
      then show ?thesis using r(2) s1 by simp
    qed
    then have "getFileNode drive ''root'' s' = (Inl e, s'\<lparr>lookups := lookups s' @ [''root'']\<rparr>)"
      using x by (simp add: getFileNode_fail)
    then have "ensureRootResolved drive s' = (Inl e, s'\<lparr>lookups := lookups s' @ [''root'']\<rparr>)"
      using nr r(2) s1 by (simp add: ensureRootResolved_def)
    then have "assertWriteAccessInternal drive targetIds a label s'
                 = Some (res, s'\<lparr>lookups := lookups s' @ [''root'']\<rparr>)"
      using en err ne r s1 by (simp add: assertWriteAccessInternal_def)
    then show ?thesis using x(1)
      by (intro exI [of _ "s'\<lparr>lookups := lookups s' @ [''root'']\<rparr>"] exI [of _ "[''root'']"])
         simp
  next
    case (Inr u)
    with er have c1: "coherent drive s1"
      and st1: "enabled (allowlistState s1)" "error (allowlistState s1) = error (allowlistState s)"
        "ids (allowlistState s1) = resolved_ids drive s"
        "rootResolved s1 \<or> ''root'' \<notin> ids (allowlistState s1)"
      using en by auto
    have run: "assertWriteAccessInternal_loop drive targetIds a label s1 = Some (res, s')"
      using first g Inr en err ne by (simp add: assertWriteAccessInternal_def)
    from internal_loop_coherent [OF cons run c1]
    have c': "coherent drive s'" and a': "allowlistState s' = allowlistState s1"
      and r': "rootResolved s' = rootResolved s1" by simp_all
    from internal_loop_replay [OF cons run c1 c' map_le_refl a']
    obtain s'' new
      where again: "assertWriteAccessInternal_loop drive targetIds a label s' = Some (res, s'')"
        and f: "parentCache s'' = parentCache s'" "lookups s'' = lookups s' @ new"
          "\<forall>k\<in>set new. \<exists>err. drive k = Inl err" by blast
    have "ids (allowlistState s') \<noteq> {}"
      using a' st1(3) ne resolved_ids_superset [of s drive] by auto
    moreover have "ensureRootResolved drive s' = (Inr (), s')"
      using st1(4) a' r' by (intro ensureRootResolved_again) simp
    ultimately have "assertWriteAccessInternal drive targetIds a label s' = Some (res, s'')"
      using again a' st1(1,2) err by (simp add: assertWriteAccessInternal_def)
    with f show ?thesis by blast
  qed
qed

theorem second_call_agrees_witness:
  "consistent drive_tree \<and> coherent drive_tree (initial (allow {''F1''}))
   \<and> assertWriteAccessInternal drive_tree [''A'', ''Z''] ''move'' Parents_label
         (initial (allow {''F1''}))
       = Some (Inl (UserError (''Write blocked by allowlist: move. The target parents (Z) ''
                                @ ''is not within a whitelisted file or folder.'')),
               (initial (allow {''F1''}))
                 \<lparr>parentCache := [''A'' \<mapsto> \<lparr>id_n = ''A'', parents = [''F1'']\<rparr>,
                                   ''Z'' \<mapsto> \<lparr>id_n = ''Z'', parents = []\<rparr>],
                  lookups := [''A'', ''Z''], visited := [''A'', ''F1'', ''Z'']\<rparr>)
   \<and> (\<exists>s'' new.
         assertWriteAccessInternal drive_tree [''A'', ''Z''] ''move'' Parents_label
           ((initial (allow {''F1''}))
                 \<lparr>parentCache := [''A'' \<mapsto> \<lparr>id_n = ''A'', parents = [''F1'']\<rparr>,
                                   ''Z'' \<mapsto> \<lparr>id_n = ''Z'', parents = []\<rparr>],
                  lookups := [''A'', ''Z''], visited := [''A'', ''F1'', ''Z'']\<rparr>)
           = Some (Inl (UserError (''Write blocked by allowlist: move. The target parents (Z) ''
                                    @ ''is not within a whitelisted file or folder.'')), s'')
         \<and> lookups s'' = [''A'', ''Z''] @ new
         \<and> (\<forall>k\<in>set new. \<exists>err. drive_tree k = Inl err))"
proof -
  have run: "assertWriteAccessInternal drive_tree [''A'', ''Z''] ''move'' Parents_label
         (initial (allow {''F1''}))
       = Some (Inl (UserError (''Write blocked by allowlist: move. The target parents (Z) ''
                                @ ''is not within a whitelisted file or folder.'')),
               (initial (allow {''F1''}))
                 \<lparr>parentCache := [''A'' \<mapsto> \<lparr>id_n = ''A'', parents = [''F1'']\<rparr>,
                                   ''Z'' \<mapsto> \<lparr>id_n = ''Z'', parents = []\<rparr>],
                  lookups := [''A'', ''Z''], visited := [''A'', ''F1'', ''Z'']\<rparr>)"
    by (simp add: run_defs drive_tree_def)
  from second_call_agrees
         [OF consistent_drive_tree coherent_initial [of drive_tree "allow {''F1''}"] run]
  show ?thesis using run consistent_drive_tree coherent_initial by auto
qed

text \<open>
  The claim as the specification words it, with no call of the store for an identifier the
  first call visited, fails where the store fails: the first call visits \<open>P\<close> and is
  refused, nothing is cached, and the second call asks the store for \<open>P\<close> again.
\<close>

theorem second_call_asks_again_counterexample:
  "assertWriteAccessForFile drive_tree ''P'' ''move'' (initial (allow {''F1''}))
     = Some (Inl (UserError ''Cannot verify allowlist: permission denied for file (ID: P).''),
             (initial (allow {''F1''}))\<lparr>lookups := [''P''], visited := [''P'']\<rparr>)
   \<and> ''P'' \<in> set (visited ((initial (allow {''F1''}))\<lparr>lookups := [''P''], visited := [''P'']\<rparr>))
   \<and> assertWriteAccessForFile drive_tree ''P'' ''move''
         ((initial (allow {''F1''}))\<lparr>lookups := [''P''], visited := [''P'']\<rparr>)
     = Some (Inl (UserError ''Cannot verify allowlist: permission denied for file (ID: P).''),
             (initial (allow {''F1''}))\<lparr>lookups := [''P'', ''P''],
                                            visited := [''P'', ''P'']\<rparr>)"
  by (simp add: run_defs drive_tree_def denied_def)

subsection \<open>What every state the module reaches satisfies\<close>

lemma ensureRootResolved_root_known:
  assumes e: "ensureRootResolved drive s = (res, s1)" and coh: "coherent drive s"
    and cons: "consistent drive" and rk: "root_known drive s"
  shows "root_known drive s1"
proof (cases "rootResolved s \<or> ''root'' \<notin> ids (allowlistState s)")
  case True
  then show ?thesis using e rk by (simp add: ensureRootResolved_def)
next
  case False
  obtain g s0 where g: "getFileNode drive ''root'' s = (g, s0)" by force
  note gc = getFileNode_coherent [OF g cons coh]
  note gf = getFileNode_frame [OF g]
  show ?thesis
  proof (cases g)
    case (Inl x)
    then show ?thesis using e False g gf by (auto simp: ensureRootResolved_def root_known_def)
  next
    case (Inr node)
    with gc obtain r where r: "drive ''root'' = Inr r" "node = FileNode_of ''root'' r" by auto
    from ensureRootResolved_result [OF e coh cons] e False g Inr
    have "ids (allowlistState s1) = resolved_ids drive s"
      by (auto simp: ensureRootResolved_def Let_def)
    with False r show ?thesis by (simp add: root_known_def resolved_ids_def)
  qed
qed

lemma assertion_keeps_agreement:
  assumes cons: "consistent drive" and coh: "coherent drive s" and rk: "root_known drive s"
    and run: "assertWriteAccessInternal drive targetIds a label s = Some (res, s')"
  shows "coherent drive s' \<and> root_known drive s'"
proof (cases "\<not> enabled (allowlistState s)
              \<or> (case error (allowlistState s) of None \<Rightarrow> False | Some e \<Rightarrow> truthy e)
              \<or> ids (allowlistState s) = {}")
  case True
  then have "s' = s" using run by (auto simp: assertWriteAccessInternal_def split: if_splits)
  with coh rk show ?thesis by simp
next
  case False
  obtain g s1 where g: "ensureRootResolved drive s = (g, s1)" by force
  from ensureRootResolved_result [OF g coh cons] have c1: "coherent drive s1" by simp
  from ensureRootResolved_root_known [OF g coh cons rk] have k1: "root_known drive s1" .
  show ?thesis
  proof (cases g)
    case (Inl e)
    then have "s' = s1" using run False g by (auto simp: assertWriteAccessInternal_def)
    with c1 k1 show ?thesis by simp
  next
    case (Inr u)
    then have "assertWriteAccessInternal_loop drive targetIds a label s1 = Some (res, s')"
      using run False g by (auto simp: assertWriteAccessInternal_def)
    from internal_loop_coherent [OF cons this c1] k1 show ?thesis
      by (simp add: root_known_def)
  qed
qed


subsection \<open>A failed lookup rejects\<close>

lemma internal_loop_returns:
  assumes cons: "consistent drive"
  shows "\<forall>t\<in>set targetIds. finite (ancestors drive t) \<Longrightarrow> coherent drive s \<Longrightarrow>
         \<exists>y. assertWriteAccessInternal_loop drive targetIds a label s = Some y"
proof (induction targetIds arbitrary: s)
  case Nil
  show ?case by simp
next
  case (Cons targetId rest)
  from Cons.prems(1) have fin: "finite (ancestors drive targetId)" by simp
  from isIdWithinAllowlist_returns [OF fin Cons.prems(2), of "ids (allowlistState s)"]
  obtain r1 s1
    where run: "isIdWithinAllowlist drive targetId (ids (allowlistState s)) s = Some (r1, s1)"
    by auto
  then have "isIdWithinAllowlist_loop drive (ids (allowlistState s)) [targetId] {} s
               = Some (r1, s1)" by (simp add: isIdWithinAllowlist_def)
  from loop_coherent [OF this cons Cons.prems(2)] have c1: "coherent drive s1" by simp
  from Cons.IH [of s1] Cons.prems(1) c1 obtain y
    where "assertWriteAccessInternal_loop drive rest a label s1 = Some y" by auto
  with run show ?case by (cases r1) auto
qed

lemma internal_returns:
  assumes cons: "consistent drive" and coh: "coherent drive s"
    and fin: "\<forall>t\<in>set targetIds. finite (ancestors drive t)"
  shows "\<exists>y. assertWriteAccessInternal drive targetIds a label s = Some y"
proof -
  obtain g s1 where g: "ensureRootResolved drive s = (g, s1)" by force
  from ensureRootResolved_result [OF g coh cons] have c1: "coherent drive s1" by simp
  from internal_loop_returns [OF cons fin c1, of a label] obtain y
    where "assertWriteAccessInternal_loop drive targetIds a label s1 = Some y" by blast
  with g show ?thesis by (cases g) (auto simp: assertWriteAccessInternal_def)
qed

lemma assertion_keeps_coherent:
  assumes cons: "consistent drive" and coh: "coherent drive s"
    and run: "assertWriteAccessInternal drive targetIds a label s = Some (res, s')"
  shows "coherent drive s'"
proof (cases "\<not> enabled (allowlistState s)
              \<or> (case error (allowlistState s) of None \<Rightarrow> False | Some e \<Rightarrow> truthy e)
              \<or> ids (allowlistState s) = {}")
  case True
  then have "s' = s" using run by (auto simp: assertWriteAccessInternal_def split: if_splits)
  with coh show ?thesis by simp
next
  case False
  obtain g s1 where g: "ensureRootResolved drive s = (g, s1)" by force
  from ensureRootResolved_result [OF g coh cons] have c1: "coherent drive s1" by simp
  show ?thesis
  proof (cases g)
    case (Inl e)
    then have "s' = s1" using run False g by (auto simp: assertWriteAccessInternal_def)
    with c1 show ?thesis by simp
  next
    case (Inr u)
    then have "assertWriteAccessInternal_loop drive targetIds a label s1 = Some (res, s')"
      using run False g by (auto simp: assertWriteAccessInternal_def)
    from internal_loop_coherent [OF cons this c1] show ?thesis by simp
  qed
qed

text \<open>
  Claim C9. On a consistent store, from a cache that agrees with it, and for targets with
  finitely many ancestors, an assertion returns; every identifier it asked the store for
  and the store failed for is the last one it asked for, it was asked for once, it is not
  cached, and the assertion rejected with the message of that failure: for code 404 the
  message that the file of that identifier is not found, for code 403 the message that
  permission is denied for it, and otherwise the message that verification failed for it,
  with the text of the remote error.
\<close>

theorem remote_failure_rejects:
  assumes "consistent drive" and "coherent drive s"
    and "\<forall>t\<in>set targetIds. finite (ancestors drive t)"
  shows "\<exists>res s' new. assertWriteAccessInternal drive targetIds a label s = Some (res, s')
           \<and> lookups s' = lookups s @ new \<and> distinct new
           \<and> (\<forall>k\<in>set new. \<forall>err. drive k = Inl err \<longrightarrow>
                  last new = k \<and> res = Inl (getFileNode_catch err k)
                \<and> parentCache s' k = None
                \<and> (code err = Some 404 \<longrightarrow>
                     res = Inl (UserError (''Cannot verify allowlist: file not found (ID: ''
                                            @ k @ '').'')))
                \<and> (code err = Some 403 \<longrightarrow>
                     res = Inl (UserError
                                  (''Cannot verify allowlist: permission denied for file (ID: ''
                                    @ k @ '').'')))
                \<and> (code err \<noteq> Some 404 \<and> code err \<noteq> Some 403 \<longrightarrow>
                     res = Inl (UserError (''Cannot verify allowlist for file '' @ k @ '': ''
                                  @ or_else (response_message err)
                                      (or_else (message err) ''Unknown error'')))))"
proof -
  from internal_returns [OF assms, of a label] obtain res s'
    where run: "assertWriteAccessInternal drive targetIds a label s = Some (res, s')" by force
  from internal_orderly [OF run] obtain new where new: "lookups s' = lookups s @ new"
    "distinct new"
    and bad: "\<And>k err. k \<in> set new \<Longrightarrow> drive k = Inl err \<Longrightarrow>
                 last new = k \<and> res = Inl (getFileNode_catch err k)"
    unfolding orderly_def by blast
  from assertion_keeps_coherent [OF assms(1,2) run] have c': "coherent drive s'" .
  have nc: "parentCache s' k = None" if "drive k = Inl err" for k err
  proof (cases "parentCache s' k")
    case (Some n)
    with c' obtain r where "drive k = Inr r" unfolding coherent_def by blast
    with that show ?thesis by simp
  qed simp
  show ?thesis
    apply (rule exI [of _ res], rule exI [of _ s'], rule exI [of _ new])
    using run new bad nc getFileNode_catch_cases by simp
qed

theorem remote_failure_rejects_witness:
  "consistent drive_tree \<and> coherent drive_tree (initial (allow {''F1''}))
   \<and> finite (ancestors drive_tree ''P'')
   \<and> assertWriteAccessInternal drive_tree [''P''] ''move'' File_label
         (initial (allow {''F1''}))
       = Some (Inl (UserError ''Cannot verify allowlist: permission denied for file (ID: P).''),
               (initial (allow {''F1''}))\<lparr>lookups := [''P''], visited := [''P'']\<rparr>)
   \<and> drive_tree ''P'' = Inl denied \<and> code denied = Some 403"
proof -
  have "ancestors drive_tree ''P'' \<subseteq> {''P''}"
    by (rule ancestors_subset) (auto simp: parents_drive_tree)
  then have f: "finite (ancestors drive_tree ''P'')" by (rule finite_subset) simp
  then have fin: "\<forall>t\<in>set [''P'']. finite (ancestors drive_tree t)" by simp
  have run: "assertWriteAccessInternal drive_tree [''P''] ''move'' File_label
               (initial (allow {''F1''}))
     = Some (Inl (UserError ''Cannot verify allowlist: permission denied for file (ID: P).''),
             (initial (allow {''F1''}))\<lparr>lookups := [''P''], visited := [''P'']\<rparr>)"
    by (simp add: run_defs drive_tree_def denied_def)
  have d: "drive_tree ''P'' = Inl denied" "code denied = Some 403"
    by (simp_all add: drive_tree_def denied_def)
  from remote_failure_rejects
         [OF consistent_drive_tree coherent_initial [of drive_tree "allow {''F1''}"] fin,
          of "''move''" File_label]
  obtain res s' where "assertWriteAccessInternal drive_tree [''P''] ''move'' File_label
                         (initial (allow {''F1''})) = Some (res, s')" by blast
  with run f d consistent_drive_tree coherent_initial [of drive_tree "allow {''F1''}"]
  show ?thesis by (intro conjI)
qed


end
